theory Spec2Isabelle
  imports Main
begin

section \<open>Python values used by the two scripts\<close>

text \<open>
  A Python \<open>str\<close> is modelled as a \<open>string\<close> whose characters are the code points
  below 256. The scripts only inspect ASCII letters, digits, signs and whitespace.
  \<open>py_upper\<close> is \<open>str.upper\<close> on ASCII strings; it leaves the characters outside
  ASCII unchanged, where \<open>str.upper\<close> maps some of them (U+00E0 to U+00C0, U+00DF to
  \<open>SS\<close>). No character outside ASCII upper-cases to one of the letters B, K, M or
  G, so this changes no dictionary lookup of \<open>parse_size\<close>: a unit with such a
  character is not in the table in either case, and only the key that the
  \<open>KeyError\<close> carries can differ from the one of Python.
\<close>

datatype py_exn =
    ValueError string
  | FloatValueError string
  | NaNValueError
  | KeyError string
  | OverflowError
  | IndexError

text \<open>
  \<open>ValueError msg\<close> is a \<open>ValueError\<close> raised by the scripts themselves with the
  message \<open>msg\<close>; \<open>FloatValueError s\<close> is the \<open>ValueError\<close> that the builtin
  \<open>float\<close> raises on the string \<open>s\<close>; \<open>NaNValueError\<close> is the \<open>ValueError\<close> that
  the builtin \<open>int\<close> raises on a NaN; \<open>KeyError k\<close> is a failed dictionary lookup
  of the key \<open>k\<close>; \<open>OverflowError\<close> is raised by \<open>int\<close> on an infinity and by the
  conversion of too large an \<open>int\<close> to a float; \<open>IndexError\<close> is an index out of range.
\<close>

fun is_ValueError :: "py_exn \<Rightarrow> bool" where
  "is_ValueError (ValueError _) = True"
| "is_ValueError (FloatValueError _) = True"
| "is_ValueError NaNValueError = True"
| "is_ValueError (KeyError _) = False"
| "is_ValueError OverflowError = False"
| "is_ValueError IndexError = False"

subsection \<open>String methods\<close>

definition py_isspace :: "char \<Rightarrow> bool" where
  "py_isspace c = ((of_char c :: nat) \<in> {9, 10, 11, 12, 13, 28, 29, 30, 31, 32, 133, 160})"

definition py_strip :: "string \<Rightarrow> string" where
  "py_strip s = rev (dropWhile py_isspace (rev (dropWhile py_isspace s)))"

definition upper_char :: "char \<Rightarrow> char" where
  "upper_char c =
     (let n = (of_char c :: nat) in if 97 \<le> n \<and> n \<le> 122 then char_of (n - 32) else c)"

definition lower_char :: "char \<Rightarrow> char" where
  "lower_char c =
     (let n = (of_char c :: nat) in if 65 \<le> n \<and> n \<le> 90 then char_of (n + 32) else c)"

definition py_upper :: "string \<Rightarrow> string" where
  "py_upper s = map upper_char s"

definition py_lower :: "string \<Rightarrow> string" where
  "py_lower s = map lower_char s"

text \<open>The slices \<open>s[:-2]\<close> and \<open>s[-2:]\<close>; on a string shorter than two characters
  the first is empty and the second is the whole string.\<close>

definition all_but_last2 :: "string \<Rightarrow> string" where
  "all_but_last2 s = take (length s - 2) s"

definition last2 :: "string \<Rightarrow> string" where
  "last2 s = drop (length s - 2) s"

subsection \<open>Floats\<close>

text \<open>
  A Python float is an IEEE binary64 value. \<open>Finite m e\<close> stands for the number
  \<open>m * 2 ^ e\<close>; the sign of a zero is not kept, since no operation of the scripts
  depends on it.
\<close>

datatype pyfloat = Finite int int | PosInf | NegInf | NaN

function bitlen :: "int \<Rightarrow> int" where
  "bitlen n = (if n \<le> 0 then 0 else 1 + bitlen (n div 2))"
  by pat_completeness auto
termination
  by (relation "measure nat") auto

declare bitlen.simps [simp del]

text \<open>\<open>bitlen n\<close> is the number of binary digits of \<open>n\<close>. \<open>ge_pow2 n d k\<close> holds when
  \<open>n / d \<ge> 2 ^ k\<close>, for \<open>d > 0\<close> and an integer \<open>k\<close> of either sign.\<close>

definition ge_pow2 :: "int \<Rightarrow> int \<Rightarrow> int \<Rightarrow> bool" where
  "ge_pow2 n d k = (if 0 \<le> k then d * 2 ^ nat k \<le> n else d \<le> n * 2 ^ nat (- k))"

definition floor_log2 :: "int \<Rightarrow> int \<Rightarrow> int" where
  "floor_log2 n d =
     (let k = bitlen n - bitlen d in if ge_pow2 n d k then k else k - 1)"

definition round_half_even :: "int \<Rightarrow> int \<Rightarrow> int" where
  "round_half_even num den =
     (let q = num div den; r = num mod den in
      if 2 * r < den then q
      else if den < 2 * r then q + 1
      else if even q then q else q + 1)"

text \<open>
  \<open>round_double neg n d\<close> rounds the rational \<open>n / d\<close> (with \<open>n \<ge> 0\<close> and \<open>d > 0\<close>), negated when
  \<open>neg\<close> holds, to the nearest binary64 value, ties to even: 53 bits of mantissa,
  gradual underflow below \<open>2 ^ -1022\<close>, overflow to an infinity from \<open>2 ^ 1024\<close> on.
\<close>

definition round_double :: "bool \<Rightarrow> int \<Rightarrow> int \<Rightarrow> pyfloat" where
  "round_double neg n d =
     (if n = 0 then Finite 0 0
      else
        let e = max (floor_log2 n d - 52) (- 1074);
            m = (if 0 \<le> e then round_half_even n (d * 2 ^ nat e)
                 else round_half_even (n * 2 ^ nat (- e)) d)
        in if 971 < e \<or> (e = 971 \<and> 2 ^ 53 \<le> m) then (if neg then NegInf else PosInf)
           else Finite (if neg then - m else m) e)"

text \<open>
  The builtin \<open>float(s)\<close> on a string. Leading and trailing whitespace is removed;
  what remains must be, in full, an optional sign followed by \<open>inf\<close>, \<open>infinity\<close> or
  \<open>nan\<close> in any casing, or by a decimal number: digits with an optional point and
  an optional exponent, where single underscores may separate digits.
\<close>

definition is_digit :: "char \<Rightarrow> bool" where
  "is_digit c = (let n = (of_char c :: nat) in 48 \<le> n \<and> n \<le> 57)"

definition digit_val :: "char \<Rightarrow> int" where
  "digit_val c = (of_char c :: int) - 48"

fun digitpart_rest :: "int list \<Rightarrow> string \<Rightarrow> int list \<times> string" where
  "digitpart_rest acc [] = (acc, [])"
| "digitpart_rest acc [c] = (if is_digit c then (acc @ [digit_val c], []) else (acc, [c]))"
| "digitpart_rest acc (c # d # cs) =
     (if is_digit c then digitpart_rest (acc @ [digit_val c]) (d # cs)
      else if c = CHR ''_'' \<and> is_digit d then digitpart_rest (acc @ [digit_val d]) cs
      else (acc, c # d # cs))"

definition digitpart :: "string \<Rightarrow> (int list \<times> string) option" where
  "digitpart s =
     (case s of
        [] \<Rightarrow> None
      | c # cs \<Rightarrow> if is_digit c then Some (digitpart_rest [digit_val c] cs) else None)"

text \<open>\<open>number s\<close> reads \<open>[digitpart] "." digitpart | digitpart ["."]\<close> and returns the
  digits before the point, the digits after it, and the unread rest.\<close>

definition number :: "string \<Rightarrow> (int list \<times> int list \<times> string) option" where
  "number s =
     (case digitpart s of
        Some (ip, r) \<Rightarrow>
          (case r of
             [] \<Rightarrow> Some (ip, [], r)
           | c # r' \<Rightarrow>
               if c = CHR ''.'' then
                 (case digitpart r' of
                    Some (fp, r'') \<Rightarrow> Some (ip, fp, r'')
                  | None \<Rightarrow> Some (ip, [], r'))
               else Some (ip, [], r))
      | None \<Rightarrow>
          (case s of
             [] \<Rightarrow> None
           | c # r' \<Rightarrow>
               if c = CHR ''.'' then
                 (case digitpart r' of
                    Some (fp, r'') \<Rightarrow> Some ([], fp, r'')
                  | None \<Rightarrow> None)
               else None))"

definition digits_val :: "int list \<Rightarrow> int" where
  "digits_val ds = foldl (\<lambda>a d. 10 * a + d) 0 ds"

text \<open>\<open>exponent s\<close> reads an optional exponent that must reach the end of the string.\<close>

definition exponent :: "string \<Rightarrow> int option" where
  "exponent s =
     (case s of
        [] \<Rightarrow> Some 0
      | c # r \<Rightarrow>
          if c = CHR ''e'' \<or> c = CHR ''E'' then
            (let (neg, r') =
                   (case r of
                      [] \<Rightarrow> (False, r)
                    | x # xs \<Rightarrow>
                        if x = CHR ''-'' then (True, xs)
                        else if x = CHR ''+'' then (False, xs)
                        else (False, r))
             in case digitpart r' of
                  Some (ds, []) \<Rightarrow> Some (if neg then - digits_val ds else digits_val ds)
                | _ \<Rightarrow> None)
          else None)"

definition float_abs :: "bool \<Rightarrow> string \<Rightarrow> pyfloat option" where
  "float_abs neg s =
     (if py_lower s = ''inf'' \<or> py_lower s = ''infinity'' then Some (if neg then NegInf else PosInf)
      else if py_lower s = ''nan'' then Some NaN
      else
        (case number s of
           None \<Rightarrow> None
         | Some (ip, fp, r) \<Rightarrow>
             (case exponent r of
                None \<Rightarrow> None
              | Some ex \<Rightarrow>
                  (let m = digits_val (ip @ fp); e10 = ex - int (length fp)
                   in Some (if 0 \<le> e10 then round_double neg (m * 10 ^ nat e10) 1
                            else round_double neg m (10 ^ nat (- e10)))))))"

text \<open>The builtin \<open>float\<close> skips whitespace at both ends of its argument. Its
  whitespace is not the one of \<open>str.strip\<close>: the separators U+001C to U+001F are
  not skipped.\<close>

definition float_isspace :: "char \<Rightarrow> bool" where
  "float_isspace c = ((of_char c :: nat) \<in> {9, 10, 11, 12, 13, 32, 133, 160})"

definition py_float :: "string \<Rightarrow> py_exn + pyfloat" where
  "py_float s =
     (let t = rev (dropWhile float_isspace (rev (dropWhile float_isspace s)));
          r = (case t of
                 [] \<Rightarrow> None
               | c # cs \<Rightarrow>
                   if c = CHR ''-'' then float_abs True cs
                   else if c = CHR ''+'' then float_abs False cs
                   else float_abs False t)
      in case r of None \<Rightarrow> Inl (FloatValueError s) | Some x \<Rightarrow> Inr x)"

text \<open>The product \<open>x * n\<close> of a float and an int: the int is converted to a float
  first (an \<open>OverflowError\<close> when it is too large), then the product is rounded.\<close>

definition float_of_int :: "int \<Rightarrow> py_exn + pyfloat" where
  "float_of_int n =
     (case round_double (n < 0) \<bar>n\<bar> 1 of
        Finite m e \<Rightarrow> Inr (Finite m e)
      | _ \<Rightarrow> Inl OverflowError)"

fun float_mul :: "pyfloat \<Rightarrow> pyfloat \<Rightarrow> pyfloat" where
  "float_mul NaN _ = NaN"
| "float_mul _ NaN = NaN"
| "float_mul (Finite m e) (Finite m' e') =
     (let p = m * m'; x = e + e'
      in if 0 \<le> x then round_double (p < 0) (\<bar>p\<bar> * 2 ^ nat x) 1
         else round_double (p < 0) \<bar>p\<bar> (2 ^ nat (- x)))"
| "float_mul (Finite m e) PosInf = (if m = 0 then NaN else if m < 0 then NegInf else PosInf)"
| "float_mul (Finite m e) NegInf = (if m = 0 then NaN else if m < 0 then PosInf else NegInf)"
| "float_mul PosInf (Finite m e) = (if m = 0 then NaN else if m < 0 then NegInf else PosInf)"
| "float_mul NegInf (Finite m e) = (if m = 0 then NaN else if m < 0 then PosInf else NegInf)"
| "float_mul PosInf PosInf = PosInf"
| "float_mul PosInf NegInf = NegInf"
| "float_mul NegInf PosInf = NegInf"
| "float_mul NegInf NegInf = PosInf"

definition float_mul_int :: "pyfloat \<Rightarrow> int \<Rightarrow> py_exn + pyfloat" where
  "float_mul_int x n = (case float_of_int n of Inl err \<Rightarrow> Inl err | Inr y \<Rightarrow> Inr (float_mul x y))"

text \<open>The builtin \<open>int(x)\<close> on a float truncates towards zero.\<close>

fun py_int :: "pyfloat \<Rightarrow> py_exn + int" where
  "py_int (Finite m e) =
     Inr (if 0 \<le> e then m * 2 ^ nat e
          else if 0 \<le> m then m div 2 ^ nat (- e)
          else - ((- m) div 2 ^ nat (- e)))"
| "py_int PosInf = Inl OverflowError"
| "py_int NegInf = Inl OverflowError"
| "py_int NaN = Inl NaNValueError"

section \<open>main.py: the size converter\<close>

definition units :: "(string \<times> int) list" where
  "units = [(''B'', 1), (''KB'', 1024), (''MB'', 1024 * 1024), (''GB'', 1024 * 1024 * 1024)]"

definition parse_size :: "string \<Rightarrow> py_exn + int" where
  "parse_size size_str =
     (case py_float (py_strip (all_but_last2 size_str)) of
        Inl err \<Rightarrow> Inl err
      | Inr size_val \<Rightarrow>
          (let unit_str = py_upper (last2 size_str)
           in case map_of units unit_str of
                None \<Rightarrow> Inl (KeyError unit_str)
              | Some factor \<Rightarrow>
                  (case float_mul_int size_val factor of
                     Inl err \<Rightarrow> Inl err
                   | Inr x \<Rightarrow> py_int x)))"

section \<open>validators.py: the path converters\<close>

text \<open>
  The converters ask the file system whether a path exists and what it names.
  A file system is a function from paths to the kind of object found there, after
  following symbolic links: \<open>os.path.exists\<close> holds where there is one,
  \<open>os.path.isfile\<close> where it is a regular file, \<open>os.path.isdir\<close> where it is a
  directory. The file system does not change during one call of a converter.
  The value returned, \<open>pathlib.Path(path)\<close>, is kept as \<open>Path path\<close>.
\<close>

datatype node = RegularFile | Directory | OtherNode

type_synonym filesystem = "string \<Rightarrow> node option"

datatype pypath = Path string

definition path_exists :: "filesystem \<Rightarrow> string \<Rightarrow> bool" where
  "path_exists fs p = (fs p \<noteq> None)"

definition path_isfile :: "filesystem \<Rightarrow> string \<Rightarrow> bool" where
  "path_isfile fs p = (fs p = Some RegularFile)"

definition path_isdir :: "filesystem \<Rightarrow> string \<Rightarrow> bool" where
  "path_isdir fs p = (fs p = Some Directory)"

definition quoted :: "string \<Rightarrow> string" where
  "quoted p = [CHR 0x27] @ p @ [CHR 0x27]"

text \<open>The converter \<open>file\<close> is named \<open>file_conv\<close> here, \<open>file\<close> being a keyword.\<close>

definition file_conv :: "filesystem \<Rightarrow> string \<Rightarrow> py_exn + pypath" where
  "file_conv fs p =
     (if \<not> path_exists fs p then
        Inl (ValueError (''Expected file, doesn'' @ [CHR 0x27] @ ''t exist: '' @ quoted p))
      else if \<not> path_isfile fs p then
        Inl (ValueError (''Expected file, received non-file: '' @ quoted p))
      else Inr (Path p))"

definition directory :: "filesystem \<Rightarrow> string \<Rightarrow> py_exn + pypath" where
  "directory fs p =
     (if \<not> path_exists fs p then
        Inl (ValueError (''Expected directory, doesn'' @ [CHR 0x27] @ ''t exist: '' @ quoted p))
      else if \<not> path_isdir fs p then
        Inl (ValueError (''Expected directory, received non-directory: '' @ quoted p))
      else Inr (Path p))"

text \<open>A file system with one directory and one regular file, for concrete checks.\<close>

definition fs_example :: filesystem where
  "fs_example p =
     (if p = ''docs'' then Some Directory
      else if p = ''main.py'' then Some RegularFile else None)"

section \<open>The argument parser of the standard library\<close>

text \<open>
  Both scripts build an \<open>argparse.ArgumentParser\<close> and call \<open>parse_args\<close>. What
  follows is \<open>ArgumentParser.parse_args\<close> of CPython 3.11 for parsers made of
  positionals and options with the actions \<open>store\<close>, \<open>store_true\<close> and \<open>help\<close>, the
  prefix character \<open>-\<close>, abbreviations allowed, and no mutually exclusive groups,
  subparsers or argument files, which the scripts do not use.
\<close>

subsection \<open>Values, actions and errors\<close>

datatype pyvalue =
  VNone | VBool bool | VInt int | VStr string | VList "pyvalue list" | VPath pypath

datatype nargs = NargsNone | NargsOptional | NargsZeroOrMore | NargsOneOrMore | NargsCount nat

text \<open>
  The type functions of the two scripts: none, \<open>parse_size\<close> of main.py, and \<open>file\<close>
  and \<open>directory\<close> of validators.py. The last two read the file system; the file
  system that they find when the parser calls them is kept with them, as the list of
  the paths that exist with what each of them names.
\<close>

datatype type_func =
  TypeNone | TypeParseSize | TypeFile "(string \<times> node) list" | TypeDirectory "(string \<times> node) list"

datatype action_class = StoreAction | StoreTrueAction | HelpAction

text \<open>
  An \<open>Action\<close> object. The sentinel \<open>SUPPRESS\<close>, which the help action has as \<open>dest\<close>
  and \<open>default\<close>, is the string \<open>==SUPPRESS==\<close>, as in the library.
\<close>

definition SUPPRESS :: string where
  "SUPPRESS = ''==SUPPRESS==''"

record action =
  option_strings :: "string list"
  dest :: string
  nargs :: nargs
  const_value :: pyvalue
  default_value :: pyvalue
  type_func :: type_func
  choices :: "pyvalue list option"
  required :: bool
  action_class :: action_class

datatype argument_message =
    ExpectedOneArgument
  | ExpectedAtMostOneArgument
  | ExpectedAtLeastOneArgument
  | ExpectedArguments nat
  | IgnoredExplicitArgument string
  | InvalidValue string string
  | InvalidChoice pyvalue "pyvalue list"

text \<open>
  The messages of \<open>ArgumentError\<close>: \<open>expected one argument\<close>, \<open>expected at most one
  argument\<close>, \<open>expected at least one argument\<close>, \<open>expected n arguments\<close>, \<open>ignored
  explicit argument 'x'\<close>, \<open>invalid T value: 'x'\<close> with the name \<open>T\<close> of the type
  function, and \<open>invalid choice: 'x' (choose from ...)\<close> with the list of choices.
\<close>

datatype parser_error =
    ArgumentError string argument_message
  | RequiredArguments "string list"
  | UnrecognizedArguments "string list"
  | AmbiguousOption string "string list"

text \<open>
  How a call of \<open>parse_args\<close> can stop without returning: \<open>ExitError\<close> is
  \<open>parser.error\<close>, which prints the usage and \<open>prog: error: message\<close> to the error
  stream and exits with status 2; \<open>ExitHelp\<close> is the help action, which prints the
  help and exits with status 0; \<open>Uncaught\<close> is an exception that \<open>argparse\<close> does not
  catch, which ends the script with a traceback and status 1.
\<close>

datatype stop = ExitError parser_error | ExitHelp | Uncaught py_exn

type_synonym 'a result = "stop + 'a"

text \<open>A namespace holds the attributes set so far, in the order of their first
  assignment.\<close>

type_synonym namespace = "(string \<times> pyvalue) list"

definition hasattr :: "namespace \<Rightarrow> string \<Rightarrow> bool" where
  "hasattr ns name = (map_of ns name \<noteq> None)"

definition getattr :: "namespace \<Rightarrow> string \<Rightarrow> pyvalue option" where
  "getattr ns name = map_of ns name"

fun setattr :: "namespace \<Rightarrow> string \<Rightarrow> pyvalue \<Rightarrow> namespace" where
  "setattr [] name v = [(name, v)]"
| "setattr ((k, w) # ns) name v = (if k = name then (k, v) # ns else (k, w) # setattr ns name v)"

subsection \<open>Adding arguments\<close>

definition join :: "string \<Rightarrow> string list \<Rightarrow> string" where
  "join sep xs = (case xs of [] \<Rightarrow> [] | y # ys \<Rightarrow> foldl (\<lambda>acc x. acc @ sep @ x) y ys)"

definition get_action_name :: "action \<Rightarrow> string" where
  "get_action_name a =
     (if option_strings a \<noteq> [] then join ''/'' (option_strings a)
      else dest a)"

text \<open>\<open>add_argument\<close> for a positional: it is required unless \<open>nargs\<close> is \<open>?\<close>, or \<open>*\<close>
  with a default.\<close>

definition positional :: "string \<Rightarrow> nargs \<Rightarrow> pyvalue option \<Rightarrow> type_func \<Rightarrow> action" where
  "positional name n dflt ty =
     \<lparr> option_strings = [], dest = name, nargs = n, const_value = VNone,
       default_value = (case dflt of None \<Rightarrow> VNone | Some v \<Rightarrow> v), type_func = ty,
       choices = None,
       required = (n \<noteq> NargsOptional \<and> (n \<noteq> NargsZeroOrMore \<or> dflt = None)),
       action_class = StoreAction \<rparr>"

text \<open>\<open>add_argument\<close> for an option: the destination is the first long option
  string, or else the first option string, without its leading \<open>-\<close> and with \<open>-\<close>
  replaced by \<open>_\<close>.\<close>

definition is_long :: "string \<Rightarrow> bool" where
  "is_long s = (case s of a # b # _ \<Rightarrow> b = CHR ''-'' | _ \<Rightarrow> False)"

definition optional_dest :: "string list \<Rightarrow> string" where
  "optional_dest opts =
     (let s = (case filter is_long opts of l # _ \<Rightarrow> l | [] \<Rightarrow> (case opts of o1 # _ \<Rightarrow> o1 | [] \<Rightarrow> []))
      in map (\<lambda>c. if c = CHR ''-'' then CHR ''_'' else c) (dropWhile (\<lambda>c. c = CHR ''-'') s))"

definition optional :: "string list \<Rightarrow> nargs \<Rightarrow> pyvalue \<Rightarrow> type_func \<Rightarrow> pyvalue list option \<Rightarrow> action" where
  "optional opts n dflt ty chs =
     \<lparr> option_strings = opts, dest = optional_dest opts, nargs = n, const_value = VNone,
       default_value = dflt, type_func = ty, choices = chs, required = False,
       action_class = StoreAction \<rparr>"

definition store_true :: "string list \<Rightarrow> action" where
  "store_true opts =
     \<lparr> option_strings = opts, dest = optional_dest opts, nargs = NargsCount 0,
       const_value = VBool True, default_value = VBool False, type_func = TypeNone,
       choices = None, required = False, action_class = StoreTrueAction \<rparr>"

definition help_action :: action where
  "help_action =
     \<lparr> option_strings = [''-h'', ''--help''], dest = SUPPRESS, nargs = NargsCount 0,
       const_value = VNone, default_value = VStr SUPPRESS, type_func = TypeNone,
       choices = None, required = False, action_class = HelpAction \<rparr>"

definition option_string_actions :: "action list \<Rightarrow> (string \<times> action) list" where
  "option_string_actions acts = concat (map (\<lambda>a. map (\<lambda>s. (s, a)) (option_strings a)) acts)"

subsection \<open>Converting and checking one value\<close>

definition type_name :: "type_func \<Rightarrow> string" where
  "type_name ty =
     (case ty of
        TypeNone \<Rightarrow> ''None''
      | TypeParseSize \<Rightarrow> ''parse_size''
      | TypeFile fsl \<Rightarrow> ''file''
      | TypeDirectory fsl \<Rightarrow> ''directory'')"

definition call_type :: "type_func \<Rightarrow> string \<Rightarrow> py_exn + pyvalue" where
  "call_type ty s =
     (case ty of
        TypeNone \<Rightarrow> Inr (VStr s)
      | TypeParseSize \<Rightarrow> (case parse_size s of Inl err \<Rightarrow> Inl err | Inr n \<Rightarrow> Inr (VInt n))
      | TypeFile fsl \<Rightarrow>
          (case file_conv (map_of fsl) s of Inl err \<Rightarrow> Inl err | Inr p \<Rightarrow> Inr (VPath p))
      | TypeDirectory fsl \<Rightarrow>
          (case directory (map_of fsl) s of Inl err \<Rightarrow> Inl err | Inr p \<Rightarrow> Inr (VPath p)))"

text \<open>\<open>_get_value\<close>: a \<open>ValueError\<close> of the type function becomes an \<open>ArgumentError\<close>;
  any other exception is not caught.\<close>

definition get_value :: "action \<Rightarrow> string \<Rightarrow> pyvalue result" where
  "get_value a arg_string =
     (case call_type (type_func a) arg_string of
        Inr v \<Rightarrow> Inr v
      | Inl err \<Rightarrow>
          if is_ValueError err then
            Inl (ExitError (ArgumentError (get_action_name a)
                   (InvalidValue (type_name (type_func a)) arg_string)))
          else Inl (Uncaught err))"

definition check_value :: "action \<Rightarrow> pyvalue \<Rightarrow> unit result" where
  "check_value a v =
     (case choices a of
        None \<Rightarrow> Inr ()
      | Some chs \<Rightarrow>
          if v \<notin> set chs then Inl (ExitError (ArgumentError (get_action_name a) (InvalidChoice v chs)))
          else Inr ())"

fun get_value_list :: "action \<Rightarrow> string list \<Rightarrow> pyvalue list result" where
  "get_value_list a [] = Inr []"
| "get_value_list a (s # ss) =
     (case get_value a s of
        Inl e \<Rightarrow> Inl e
      | Inr v \<Rightarrow> (case get_value_list a ss of Inl e \<Rightarrow> Inl e | Inr vs \<Rightarrow> Inr (v # vs)))"

fun check_value_list :: "action \<Rightarrow> pyvalue list \<Rightarrow> unit result" where
  "check_value_list a [] = Inr ()"
| "check_value_list a (v # vs) =
     (case check_value a v of Inl e \<Rightarrow> Inl e | Inr _ \<Rightarrow> check_value_list a vs)"

text \<open>\<open>_get_values\<close>: the value of an action from the strings it was given. For a
  positional the first \<open>--\<close> among them is dropped.\<close>

definition get_values :: "action \<Rightarrow> string list \<Rightarrow> pyvalue result" where
  "get_values a arg_strings0 =
     (let arg_strings = (if option_strings a = [] then remove1 ''--'' arg_strings0 else arg_strings0)
      in
      if arg_strings = [] \<and> nargs a = NargsOptional then
        (let v = (if option_strings a \<noteq> [] then const_value a else default_value a)
         in case v of
              VStr s \<Rightarrow>
                (case get_value a s of
                   Inl e \<Rightarrow> Inl e
                 | Inr v' \<Rightarrow> (case check_value a v' of Inl e \<Rightarrow> Inl e | Inr _ \<Rightarrow> Inr v'))
            | _ \<Rightarrow> Inr v)
      else if arg_strings = [] \<and> nargs a = NargsZeroOrMore \<and> option_strings a = [] then
        (let v = (if default_value a \<noteq> VNone then default_value a else VList [])
         in case check_value a v of Inl e \<Rightarrow> Inl e | Inr _ \<Rightarrow> Inr v)
      else if length arg_strings = 1 \<and> (nargs a = NargsNone \<or> nargs a = NargsOptional) then
        (case get_value a (hd arg_strings) of
           Inl e \<Rightarrow> Inl e
         | Inr v \<Rightarrow> (case check_value a v of Inl e \<Rightarrow> Inl e | Inr _ \<Rightarrow> Inr v))
      else
        (case get_value_list a arg_strings of
           Inl e \<Rightarrow> Inl e
         | Inr vs \<Rightarrow> (case check_value_list a vs of Inl e \<Rightarrow> Inl e | Inr _ \<Rightarrow> Inr (VList vs))))"


subsection \<open>Matching the pattern of argument strings\<close>

text \<open>
  The parser first writes one character per argument string: \<open>O\<close> for an option,
  \<open>A\<close> for an argument, \<open>-\<close> for the first \<open>--\<close>. How many strings an action takes is
  then decided by matching regular expressions against this pattern. The
  expressions used are sequences of a character, an optional character (\<open>c?\<close>) and
  a starred character class (\<open>[...]*\<close>), in groups; \<open>rx_match\<close> is the backtracking
  match of a sequence of groups at the start of a string, greedy as \<open>re.match\<close> is,
  and returns the length of each group.
\<close>

datatype rx = Lit char | Opt char | Star "char list"

fun rx_match :: "nat \<Rightarrow> rx list \<Rightarrow> rx list list \<Rightarrow> string \<Rightarrow> nat list option" where
  "rx_match n [] [] s = Some [n]"
| "rx_match n [] (g # gs) s = map_option (Cons n) (rx_match 0 g gs s)"
| "rx_match n (Lit c # r) gs [] = None"
| "rx_match n (Lit c # r) gs (x # xs) = (if x = c then rx_match (Suc n) r gs xs else None)"
| "rx_match n (Opt c # r) gs [] = rx_match n r gs []"
| "rx_match n (Opt c # r) gs (x # xs) =
     (if x = c then
        (case rx_match (Suc n) r gs xs of
           Some res \<Rightarrow> Some res
         | None \<Rightarrow> rx_match n r gs (x # xs))
      else rx_match n r gs (x # xs))"
| "rx_match n (Star cs # r) gs [] = rx_match n r gs []"
| "rx_match n (Star cs # r) gs (x # xs) =
     (if x \<in> set cs then
        (case rx_match (Suc n) (Star cs # r) gs xs of
           Some res \<Rightarrow> Some res
         | None \<Rightarrow> rx_match n r gs (x # xs))
      else rx_match n r gs (x # xs))"

fun count_pattern :: "nat \<Rightarrow> rx list" where
  "count_pattern 0 = [Star ''-'', Star ''-'']"
| "count_pattern (Suc n) =
     [Star ''-'', Lit CHR ''A''] @ concat (replicate n [Star ''-'', Lit CHR ''A'']) @ [Star ''-'']"

text \<open>For an option, every \<open>-*\<close> and then every \<open>-\<close> is deleted from the expression.\<close>

definition strip_dashes :: "rx list \<Rightarrow> rx list" where
  "strip_dashes p =
     map (\<lambda>a. case a of Star cs \<Rightarrow> Star (filter (\<lambda>c. c \<noteq> CHR ''-'') cs) | _ \<Rightarrow> a)
         (filter (\<lambda>a. a \<noteq> Star ''-'') p)"

definition get_nargs_pattern :: "action \<Rightarrow> rx list" where
  "get_nargs_pattern a =
     (let p = (case nargs a of
                 NargsNone \<Rightarrow> [Star ''-'', Lit CHR ''A'', Star ''-'']
               | NargsOptional \<Rightarrow> [Star ''-'', Opt CHR ''A'', Star ''-'']
               | NargsZeroOrMore \<Rightarrow> [Star ''-'', Star ''A-'']
               | NargsOneOrMore \<Rightarrow> [Star ''-'', Lit CHR ''A'', Star ''A-'']
               | NargsCount n \<Rightarrow> count_pattern n)
      in if option_strings a \<noteq> [] then strip_dashes p else p)"

definition nargs_error :: "nargs \<Rightarrow> argument_message" where
  "nargs_error n =
     (case n of
        NargsNone \<Rightarrow> ExpectedOneArgument
      | NargsOptional \<Rightarrow> ExpectedAtMostOneArgument
      | NargsOneOrMore \<Rightarrow> ExpectedAtLeastOneArgument
      | NargsZeroOrMore \<Rightarrow> ExpectedArguments 0
      | NargsCount k \<Rightarrow> ExpectedArguments k)"

definition match_argument :: "action \<Rightarrow> string \<Rightarrow> nat result" where
  "match_argument a arg_strings_pattern =
     (case rx_match 0 (get_nargs_pattern a) [] arg_strings_pattern of
        None \<Rightarrow> Inl (ExitError (ArgumentError (get_action_name a) (nargs_error (nargs a))))
      | Some lens \<Rightarrow> Inr (case lens of [] \<Rightarrow> 0 | n # _ \<Rightarrow> n))"

fun match_slices :: "nat \<Rightarrow> action list \<Rightarrow> string \<Rightarrow> nat list" where
  "match_slices 0 acts p = []"
| "match_slices (Suc i) acts p =
     (case map get_nargs_pattern (take (Suc i) acts) of
        [] \<Rightarrow> match_slices i acts p
      | g # gs \<Rightarrow>
          (case rx_match 0 g gs p of
             Some lens \<Rightarrow> lens
           | None \<Rightarrow> match_slices i acts p))"

text \<open>\<open>_match_arguments_partial\<close>: the longest initial slice of the actions whose
  joined expressions match.\<close>

definition match_arguments_partial :: "action list \<Rightarrow> string \<Rightarrow> nat list" where
  "match_arguments_partial acts p = match_slices (length acts) acts p"

subsection \<open>Recognising option strings\<close>

text \<open>An option tuple: the action (none for an unknown option), the option string,
  the separator (none, empty or \<open>=\<close>) and the explicit argument, if any.\<close>

type_synonym option_tuple = "action option \<times> string \<times> string option \<times> string option"

definition startswith :: "string \<Rightarrow> string \<Rightarrow> bool" where
  "startswith s p = (take (length p) s = p)"

text \<open>\<open>s.partition('=')\<close>: the part before the first \<open>=\<close>, whether there is one, and
  the part after it.\<close>

definition partition_eq :: "string \<Rightarrow> string \<times> bool \<times> string" where
  "partition_eq s =
     (takeWhile (\<lambda>c. c \<noteq> CHR ''='') s,
      (case dropWhile (\<lambda>c. c \<noteq> CHR ''='') s of [] \<Rightarrow> (False, []) | _ # r \<Rightarrow> (True, r)))"

text \<open>The matcher \<open>^-\d+$|^-\d*\.\d+$\<close> of strings that look like negative numbers;
  \<open>$\<close> also matches before a final newline.\<close>

definition negative_number_body :: "string \<Rightarrow> bool" where
  "negative_number_body s =
     (case s of
        [] \<Rightarrow> False
      | c # r \<Rightarrow>
          c = CHR ''-'' \<and>
          ((r \<noteq> [] \<and> (\<forall>d\<in>set r. is_digit d))
           \<or> (case dropWhile is_digit r of
                 [] \<Rightarrow> False
               | p # f \<Rightarrow> p = CHR ''.'' \<and> f \<noteq> [] \<and> (\<forall>d\<in>set f. is_digit d))))"

definition negative_number_matcher :: "string \<Rightarrow> bool" where
  "negative_number_matcher s =
     (negative_number_body s
      \<or> (s \<noteq> [] \<and> last s = CHR 0x0A \<and> negative_number_body (butlast s)))"

definition has_negative_number_optionals :: "action list \<Rightarrow> bool" where
  "has_negative_number_optionals acts =
     (\<exists>s\<in>set (map fst (option_string_actions acts)). negative_number_matcher s)"

definition get_option_tuples :: "action list \<Rightarrow> string \<Rightarrow> option_tuple list" where
  "get_option_tuples acts option_string =
     (case option_string of
        c0 # c1 # rest \<Rightarrow>
          if c1 = CHR ''-'' then
            (let (option_prefix, found, explicit_arg) = partition_eq option_string
             in map (\<lambda>(s, a). (Some a, s,
                                 (if found then Some ''='' else None),
                                 (if found then Some explicit_arg else None)))
                    (filter (\<lambda>(s, a). startswith s option_prefix) (option_string_actions acts)))
          else
            concat (map (\<lambda>(s, a).
                           if s = [c0, c1] then [(Some a, s, Some [], Some rest)]
                           else if startswith s option_string then [(Some a, s, None, None)]
                           else [])
                        (option_string_actions acts))
      | _ \<Rightarrow> [])"

text \<open>\<open>_parse_optional\<close>: \<open>None\<close> for a string meant as a positional, an option tuple
  for an option, and the exit of \<open>parser.error\<close> for an ambiguous abbreviation.\<close>

definition parse_optional :: "action list \<Rightarrow> string \<Rightarrow> option_tuple option result" where
  "parse_optional acts arg_string =
     (if arg_string = [] then Inr None
      else if hd arg_string \<noteq> CHR ''-'' then Inr None
      else
        (case map_of (option_string_actions acts) arg_string of
           Some a \<Rightarrow> Inr (Some (Some a, arg_string, None, None))
         | None \<Rightarrow>
             if length arg_string = 1 then Inr None
             else
               (let (option_string, found, explicit_arg) = partition_eq arg_string
                in case (if found then map_of (option_string_actions acts) option_string else None) of
                     Some a \<Rightarrow> Inr (Some (Some a, option_string, Some ''='', Some explicit_arg))
                   | None \<Rightarrow>
                       (let option_tuples = get_option_tuples acts arg_string
                        in if 1 < length option_tuples then
                             Inl (ExitError (AmbiguousOption arg_string
                                    (map (\<lambda>(a, s, sep, e). s) option_tuples)))
                           else if length option_tuples = 1 then Inr (Some (hd option_tuples))
                           else if negative_number_matcher arg_string
                                   \<and> \<not> has_negative_number_optionals acts then Inr None
                           else if CHR '' '' \<in> set arg_string then Inr None
                           else Inr (Some (None, arg_string, None, None))))))"

text \<open>The first pass over the argument strings: the pattern, and for each index
  its option tuple, if it is an option. Everything after the first \<open>--\<close> is an
  argument.\<close>

fun classify :: "action list \<Rightarrow> string list \<Rightarrow> (string \<times> option_tuple option list) result" where
  "classify acts [] = Inr ([], [])"
| "classify acts (arg_string # rest) =
     (if arg_string = ''--'' then
        Inr (CHR ''-'' # replicate (length rest) CHR ''A'', None # replicate (length rest) None)
      else
        (case parse_optional acts arg_string of
           Inl e \<Rightarrow> Inl e
         | Inr t \<Rightarrow>
             (case classify acts rest of
                Inl e \<Rightarrow> Inl e
              | Inr (p, ts) \<Rightarrow> Inr ((if t = None then CHR ''A'' else CHR ''O'') # p, t # ts))))"

subsection \<open>Consuming positionals and options\<close>

text \<open>What does not change during one call: the actions, the argument strings,
  their pattern and their option tuples.\<close>

record env =
  actions :: "action list"
  arg_strings :: "string list"
  arg_strings_pattern :: string
  option_string_indices :: "option_tuple option list"

text \<open>What the nested functions of \<open>_parse_known_args\<close> update: the namespace, the
  actions seen, the positionals still to be filled, and the strings left over.\<close>

record pstate =
  ns :: namespace
  seen_actions :: "action set"
  positionals :: "action list"
  extras :: "string list"

definition take_action :: "pstate \<Rightarrow> action \<Rightarrow> string list \<Rightarrow> pstate result" where
  "take_action st a argument_strings =
     (let st1 = st\<lparr>seen_actions := insert a (seen_actions st)\<rparr>
      in case get_values a argument_strings of
           Inl e \<Rightarrow> Inl e
         | Inr argument_values \<Rightarrow>
             (case action_class a of
                StoreAction \<Rightarrow> Inr (st1\<lparr>ns := setattr (ns st1) (dest a) argument_values\<rparr>)
              | StoreTrueAction \<Rightarrow> Inr (st1\<lparr>ns := setattr (ns st1) (dest a) (const_value a)\<rparr>)
              | HelpAction \<Rightarrow> Inl ExitHelp))"

fun take_positionals ::
  "string list \<Rightarrow> pstate \<Rightarrow> nat \<Rightarrow> (action \<times> nat) list \<Rightarrow> (pstate \<times> nat) result" where
  "take_positionals args st start_index [] = Inr (st, start_index)"
| "take_positionals args st start_index ((a, arg_count) # rest) =
     (case take_action st a (take arg_count (drop start_index args)) of
        Inl e \<Rightarrow> Inl e
      | Inr st' \<Rightarrow> take_positionals args st' (start_index + arg_count) rest)"

definition consume_positionals :: "env \<Rightarrow> pstate \<Rightarrow> nat \<Rightarrow> (pstate \<times> nat) result" where
  "consume_positionals ev st start_index =
     (let arg_counts = match_arguments_partial (positionals st)
                         (drop start_index (arg_strings_pattern ev))
      in case take_positionals (arg_strings ev) st start_index (zip (positionals st) arg_counts) of
           Inl e \<Rightarrow> Inl e
         | Inr (st', stop) \<Rightarrow>
             Inr (st'\<lparr>positionals := drop (length arg_counts) (positionals st')\<rparr>, stop))"

text \<open>
  The loop of \<open>consume_optional\<close>. With an explicit argument (\<open>--size=5\<close>, \<open>-s5\<close>,
  \<open>-vs5\<close>) an action that takes no argument hands the rest of the string on to the
  next single-dash option. The result is the list of actions to take with their
  strings, the strings to add to the extras, and the index to go on from.
\<close>

type_synonym action_tuple = "action \<times> string list \<times> string"

function explicit_loop ::
  "env \<Rightarrow> nat \<Rightarrow> action_tuple list \<Rightarrow> action \<Rightarrow> string \<Rightarrow> string option \<Rightarrow> string option
   \<Rightarrow> (action_tuple list \<times> string list \<times> nat) result" where
  "explicit_loop ev start_index acc a option_string sep None =
     (case match_argument a (drop (start_index + 1) (arg_strings_pattern ev)) of
        Inl e \<Rightarrow> Inl e
      | Inr arg_count \<Rightarrow>
          Inr (acc @ [(a, take arg_count (drop (start_index + 1) (arg_strings ev)), option_string)],
               [], start_index + 1 + arg_count))"
| "explicit_loop ev start_index acc a option_string sep (Some explicit_arg) =
     (case match_argument a ''A'' of
        Inl e \<Rightarrow> Inl e
      | Inr arg_count \<Rightarrow>
          (case option_string of
             c0 # c1 # _ \<Rightarrow>
               if arg_count = 0 \<and> c1 \<noteq> CHR ''-'' \<and> explicit_arg \<noteq> [] then
                 (if (sep \<noteq> None \<and> sep \<noteq> Some []) \<or> hd explicit_arg = CHR ''-'' then
                    Inl (ExitError (ArgumentError (get_action_name a)
                           (IgnoredExplicitArgument explicit_arg)))
                  else
                    (let option_string' = [c0, hd explicit_arg]
                     in case map_of (option_string_actions (actions ev)) option_string' of
                          Some a' \<Rightarrow>
                            (let explicit_arg' = tl explicit_arg
                             in if explicit_arg' = [] then
                                  explicit_loop ev start_index (acc @ [(a, [], option_string)])
                                    a' option_string' None None
                                else if hd explicit_arg' = CHR ''='' then
                                  explicit_loop ev start_index (acc @ [(a, [], option_string)])
                                    a' option_string' (Some ''='') (Some (tl explicit_arg'))
                                else
                                  explicit_loop ev start_index (acc @ [(a, [], option_string)])
                                    a' option_string' (Some []) (Some explicit_arg'))
                        | None \<Rightarrow>
                            Inr (acc @ [(a, [], option_string)], [c0 # explicit_arg],
                                 start_index + 1)))
               else if arg_count = 1 then
                 Inr (acc @ [(a, [explicit_arg], option_string)], [], start_index + 1)
               else
                 Inl (ExitError (ArgumentError (get_action_name a)
                        (IgnoredExplicitArgument explicit_arg)))
           | _ \<Rightarrow> Inl (Uncaught IndexError)))"
  by pat_completeness auto
termination
  by (relation "measure (\<lambda>(ev, i, acc, a, os, sep, ex). case ex of None \<Rightarrow> 0 | Some x \<Rightarrow> Suc (length x))")
     (auto split: list.splits)

fun take_actions :: "pstate \<Rightarrow> action_tuple list \<Rightarrow> pstate result" where
  "take_actions st [] = Inr st"
| "take_actions st ((a, args, option_string) # rest) =
     (case take_action st a args of
        Inl e \<Rightarrow> Inl e
      | Inr st' \<Rightarrow> take_actions st' rest)"

text \<open>The option tuple recorded for an index, if the string there is an option.\<close>

definition option_tuple_at :: "env \<Rightarrow> nat \<Rightarrow> option_tuple option" where
  "option_tuple_at ev i =
     (if i < length (option_string_indices ev) then option_string_indices ev ! i else None)"

text \<open>\<open>consume_optional\<close> is only called at the index of an option string; at any
  other index the lookup of the option tuple would raise \<open>KeyError\<close>.\<close>

definition consume_optional :: "env \<Rightarrow> pstate \<Rightarrow> nat \<Rightarrow> (pstate \<times> nat) result" where
  "consume_optional ev st start_index =
     (case option_tuple_at ev start_index of
        None \<Rightarrow> Inl (Uncaught (KeyError []))
      | Some (None, option_string, sep, explicit_arg) \<Rightarrow>
          Inr (st\<lparr>extras := extras st @ take 1 (drop start_index (arg_strings ev))\<rparr>,
               start_index + 1)
      | Some (Some a, option_string, sep, explicit_arg) \<Rightarrow>
          (case explicit_loop ev start_index [] a option_string sep explicit_arg of
             Inl e \<Rightarrow> Inl e
           | Inr (action_tuples, more_extras, stop) \<Rightarrow>
               (case take_actions (st\<lparr>extras := extras st @ more_extras\<rparr>) action_tuples of
                  Inl e \<Rightarrow> Inl e
                | Inr st' \<Rightarrow> Inr (st', stop))))"

text \<open>The indices of the option strings, their maximum (\<open>-1\<close> when there is none)
  and the first one from a given index on.\<close>

definition option_indices :: "env \<Rightarrow> nat list" where
  "option_indices ev =
     filter (\<lambda>i. option_tuple_at ev i \<noteq> None) [0..<length (option_string_indices ev)]"

definition max_option_string_index :: "env \<Rightarrow> int" where
  "max_option_string_index ev = fold (\<lambda>i m. max (int i) m) (option_indices ev) (- 1)"

definition next_option_string_index :: "env \<Rightarrow> nat \<Rightarrow> nat" where
  "next_option_string_index ev start_index =
     (case filter (\<lambda>i. start_index \<le> i) (option_indices ev) of
        [] \<Rightarrow> start_index
      | i # rest \<Rightarrow> fold min rest i)"

lemma take_positionals_index:
  "take_positionals args st i zs = Inr (st', j) \<Longrightarrow> i \<le> j"
proof (induction zs arbitrary: st i)
  case Nil
  then show ?case by simp
next
  case (Cons z zs)
  obtain a n where z: "z = (a, n)" by (cases z)
  from Cons.prems z obtain st1 where "take_positionals args st1 (i + n) zs = Inr (st', j)"
    by (auto split: sum.splits)
  then have "i + n \<le> j" by (rule Cons.IH)
  then show ?case by simp
qed

lemma consume_positionals_index:
  "consume_positionals ev st i = Inr (st', j) \<Longrightarrow> i \<le> j"
  by (auto simp: consume_positionals_def Let_def split: sum.splits dest: take_positionals_index)

lemma fold_min_ge: "\<forall>x\<in>set xs. (k::nat) \<le> x \<Longrightarrow> k \<le> i \<Longrightarrow> k \<le> fold min xs i"
  by (induction xs arbitrary: i) auto

lemma next_option_string_index_ge: "start_index \<le> next_option_string_index ev start_index"
proof (cases "filter (\<lambda>i. start_index \<le> i) (option_indices ev)")
  case Nil
  then show ?thesis by (simp add: next_option_string_index_def)
next
  case (Cons i rest)
  have "\<forall>x\<in>set (filter (\<lambda>i. start_index \<le> i) (option_indices ev)). start_index \<le> x"
    by simp
  then have "\<forall>x\<in>set (i # rest). start_index \<le> x"
    unfolding Cons .
  then have "start_index \<le> fold min rest i" by (intro fold_min_ge) auto
  then show ?thesis using Cons by (simp add: next_option_string_index_def)
qed

lemma explicit_loop_index:
  "explicit_loop ev i acc a os sep ex = Inr (ts, xs, j) \<Longrightarrow> i < j"
proof (induction ev i acc a os sep ex rule: explicit_loop.induct)
  case (1 ev start_index acc a option_string sep)
  then show ?case by (auto split: sum.splits)
next
  case (2 ev start_index acc a option_string sep explicit_arg)
  show ?case
  proof (cases "match_argument a ''A''")
    case (Inl e)
    then show ?thesis using "2.prems" by simp
  next
    case (Inr arg_count)
    show ?thesis
    proof (cases option_string)
      case Nil
      then show ?thesis using "2.prems" Inr by simp
    next
      case (Cons c0 r)
      show ?thesis
      proof (cases r)
        case Nil
        then show ?thesis using "2.prems" Inr Cons by simp
      next
        case (Cons c1 r')
        note os = \<open>option_string = c0 # r\<close> Cons
        show ?thesis
        proof (cases "arg_count = 0 \<and> c1 \<noteq> CHR ''-'' \<and> explicit_arg \<noteq> []")
          case False
          then show ?thesis using "2.prems" Inr os by (auto split: if_splits)
        next
          case True
          show ?thesis
          proof (cases "(sep \<noteq> None \<and> sep \<noteq> Some []) \<or> hd explicit_arg = CHR ''-''")
            case t: True
            then show ?thesis using "2.prems" Inr os True by auto
          next
            case f: False
            show ?thesis
            proof (cases "map_of (option_string_actions (actions ev)) [c0, hd explicit_arg]")
              case None
              then show ?thesis using "2.prems" Inr os True f by auto
            next
              case (Some a')
              show ?thesis
                using "2.prems" "2.IH" [OF Inr os(1) os(2) True f refl Some refl]
                  Inr os True f Some
                by (auto simp: Let_def split: if_splits)
            qed
          qed
        qed
      qed
    qed
  qed
qed

lemma consume_optional_index:
  "consume_optional ev st i = Inr (st', j) \<Longrightarrow> i < j"
proof -
  assume h: "consume_optional ev st i = Inr (st', j)"
  show ?thesis
  proof (cases "option_tuple_at ev i")
    case None
    then show ?thesis using h by (simp add: consume_optional_def)
  next
    case (Some t)
    obtain ao os sep ex where t: "t = (ao, os, sep, ex)" by (cases t)
    show ?thesis
    proof (cases ao)
      case None
      then show ?thesis using h Some t by (simp add: consume_optional_def)
    next
      case (Some a)
      with h \<open>option_tuple_at ev i = Some t\<close> t
      obtain ts xs where "explicit_loop ev i [] a os sep ex = Inr (ts, xs, j)"
        by (auto simp: consume_optional_def split: sum.splits)
      then show ?thesis by (rule explicit_loop_index)
    qed
  qed
qed

text \<open>
  The loop of \<open>_parse_known_args\<close>: positionals and options are consumed in turn
  until the last option string has been passed.
\<close>

function consume_loop :: "env \<Rightarrow> pstate \<Rightarrow> nat \<Rightarrow> (pstate \<times> nat) result" where
  "consume_loop ev st start_index =
     (if \<not> int start_index \<le> max_option_string_index ev then Inr (st, start_index)
      else
        (let next_index = next_option_string_index ev start_index
         in case (if start_index \<noteq> next_index then consume_positionals ev st start_index
                  else Inr (st, start_index)) of
              Inl e \<Rightarrow> Inl e
            | Inr (st1, positionals_end_index) \<Rightarrow>
                if start_index \<noteq> next_index \<and> start_index < positionals_end_index then
                  consume_loop ev st1 positionals_end_index
                else
                  (let (st2, option_index) =
                         (if option_tuple_at ev positionals_end_index = None then
                            (st1\<lparr>extras := extras st1 @
                                   drop positionals_end_index (take next_index (arg_strings ev))\<rparr>,
                             next_index)
                          else (st1, positionals_end_index))
                   in case consume_optional ev st2 option_index of
                        Inl e \<Rightarrow> Inl e
                      | Inr (st3, stop) \<Rightarrow> consume_loop ev st3 stop)))"
  by pat_completeness auto
termination
proof (relation "measure (\<lambda>(ev, st, i). nat (max_option_string_index ev + 1 - int i))")
  show "wf (measure (\<lambda>(ev, st, i). nat (max_option_string_index ev + 1 - int i)))"
    by simp
next
  fix ev :: env and st :: pstate and start_index next_index x x2 st1 pend
  assume "\<not> \<not> int start_index \<le> max_option_string_index ev"
    and "start_index \<noteq> next_index \<and> start_index < pend"
  then show "((ev, st1, pend), (ev, st, start_index))
    \<in> measure (\<lambda>(ev, st, i). nat (max_option_string_index ev + 1 - int i))"
    by simp
next
  fix ev :: env and st :: pstate and start_index next_index :: nat
    and x x2 st1 pend y st2 option_index x2a z st3 stop
  assume le: "\<not> \<not> int start_index \<le> max_option_string_index ev"
    and nx: "next_index = next_option_string_index ev start_index"
    and pos: "(if start_index \<noteq> next_index then consume_positionals ev st start_index
               else Inr (st, start_index)) = Inr x2"
    and x2: "(st1, pend) = x2"
    and y: "y = (if option_tuple_at ev pend = None then
                   (st1\<lparr>extras := extras st1 @ drop pend (take next_index (arg_strings ev))\<rparr>,
                    next_index)
                 else (st1, pend))"
    and st2: "(st2, option_index) = y"
    and opt: "consume_optional ev st2 option_index = Inr x2a"
    and z: "(st3, stop) = x2a"
  have "start_index \<le> pend"
    using pos x2 consume_positionals_index [of ev st start_index st1 pend]
    by (auto split: if_splits)
  moreover have "start_index \<le> next_index"
    using nx next_option_string_index_ge by simp
  ultimately have "start_index \<le> option_index"
    using y st2 by (auto split: if_splits)
  moreover have "option_index < stop"
    using opt z consume_optional_index [of ev st2 option_index st3 stop] by simp
  ultimately show "((ev, st3, stop), (ev, st, start_index))
    \<in> measure (\<lambda>(ev, st, i). nat (max_option_string_index ev + 1 - int i))"
    using le by simp
qed

declare consume_loop.simps [simp del]

subsection \<open>The whole parse\<close>

text \<open>Defaults are set only for attributes that the namespace does not have yet.\<close>

definition add_defaults :: "action list \<Rightarrow> namespace \<Rightarrow> namespace" where
  "add_defaults acts nsp =
     fold (\<lambda>a n. if dest a \<noteq> SUPPRESS \<and> \<not> hasattr n (dest a) \<and> default_value a \<noteq> VStr SUPPRESS
                  then setattr n (dest a) (default_value a) else n)
          acts nsp"

text \<open>
  After the loop: the required actions that were not seen are collected, and a
  string default that is still in the namespace is converted by the type function
  of its action. The test \<open>action.default is getattr(namespace, action.dest)\<close>
  compares objects; it is an equality of values here. The two agree on the
  namespaces that the script passes: a string that equals a default without being
  that object can only come from the command line, stored by an action whose type
  function returns its argument unchanged.
\<close>

fun finish_actions ::
  "action set \<Rightarrow> action list \<Rightarrow> namespace \<Rightarrow> string list \<Rightarrow> (namespace \<times> string list) result" where
  "finish_actions seen [] nsp required_actions = Inr (nsp, required_actions)"
| "finish_actions seen (a # rest) nsp required_actions =
     (if a \<in> seen then finish_actions seen rest nsp required_actions
      else if required a then
        finish_actions seen rest nsp (required_actions @ [get_action_name a])
      else
        (case default_value a of
           VStr s \<Rightarrow>
             if hasattr nsp (dest a) \<and> getattr nsp (dest a) = Some (VStr s) then
               (case get_value a s of
                  Inl e \<Rightarrow> Inl e
                | Inr v \<Rightarrow> finish_actions seen rest (setattr nsp (dest a) v) required_actions)
             else finish_actions seen rest nsp required_actions
         | _ \<Rightarrow> finish_actions seen rest nsp required_actions))"

definition parse_known_args ::
  "action list \<Rightarrow> namespace \<Rightarrow> string list \<Rightarrow> (namespace \<times> string list) result" where
  "parse_known_args acts nsp args =
     (let nsp1 = add_defaults acts nsp
      in case classify acts args of
           Inl e \<Rightarrow> Inl e
         | Inr (pattern, tuples) \<Rightarrow>
             (let ev = \<lparr> actions = acts, arg_strings = args, arg_strings_pattern = pattern,
                         option_string_indices = tuples \<rparr>;
                  st0 = \<lparr> ns = nsp1, seen_actions = {},
                          positionals = filter (\<lambda>a. option_strings a = []) acts, extras = [] \<rparr>
              in case consume_loop ev st0 0 of
                   Inl e \<Rightarrow> Inl e
                 | Inr (st1, start_index) \<Rightarrow>
                     (case consume_positionals ev st1 start_index of
                        Inl e \<Rightarrow> Inl e
                      | Inr (st2, stop_index) \<Rightarrow>
                          (case finish_actions (seen_actions st2) acts (ns st2) [] of
                             Inl e \<Rightarrow> Inl e
                           | Inr (nsp2, required_actions) \<Rightarrow>
                               if required_actions \<noteq> [] then
                                 Inl (ExitError (RequiredArguments required_actions))
                               else Inr (nsp2, extras st2 @ drop stop_index args)))))"

definition parse_args :: "action list \<Rightarrow> namespace \<Rightarrow> string list \<Rightarrow> namespace result" where
  "parse_args acts nsp args =
     (case parse_known_args acts nsp args of
        Inl e \<Rightarrow> Inl e
      | Inr (nsp', argv) \<Rightarrow>
          if argv \<noteq> [] then Inl (ExitError (UnrecognizedArguments argv)) else Inr nsp')"

section \<open>main.py: the parser of the script\<close>

text \<open>The actions that the calls of \<open>add_argument\<close> in \<open>setup_parser\<close> create, and the
  list of the parser's actions in the order in which they are added; the
  constructor of the parser adds the help action first.\<close>

definition source_action :: action where
  "source_action = positional ''source'' NargsNone None TypeNone"

definition optional_destination_action :: action where
  "optional_destination_action =
     positional ''optional_destination'' NargsOptional (Some (VStr ''default_value'')) TypeNone"

definition files_action :: action where
  "files_action = optional [''--files''] NargsZeroOrMore (VList []) TypeNone None"

definition required_files_action :: action where
  "required_files_action = optional [''--required-files''] NargsOneOrMore VNone TypeNone None"

definition verbose_action :: action where
  "verbose_action = store_true [''-v'', ''--verbose'']"

definition mode_action :: action where
  "mode_action =
     optional [''-m'', ''--mode''] NargsNone (VStr ''auto'') TypeNone
       (Some [VStr ''auto'', VStr ''manual''])"

definition size_action :: action where
  "size_action = optional [''-s'', ''--size''] NargsNone (VStr ''1MB'') TypeParseSize None"

definition main_actions :: "action list" where
  "main_actions =
     [help_action, source_action, optional_destination_action, files_action,
      required_files_action, verbose_action, mode_action, size_action]"

text \<open>
  \<open>setup_parser\<close> passes the class \<open>FileProcessorNamespace\<close> itself as the namespace.
  The class body only has annotations, so the class starts without any of the
  attributes; \<open>setup_parser nsp argv\<close> is the call when the public attributes of
  the class are \<open>nsp\<close> and the command line is \<open>argv\<close>.
\<close>

definition FileProcessorNamespace :: namespace where
  "FileProcessorNamespace = []"

definition setup_parser :: "namespace \<Rightarrow> string list \<Rightarrow> namespace result" where
  "setup_parser nsp argv = parse_args main_actions nsp argv"

section \<open>validators.py: the parser of the script\<close>

text \<open>
  The parser of validators.py has the help action and two positionals: the required
  \<open>source_directory\<close>, converted by \<open>directory\<close>, and one or more \<open>files\<close>, each
  converted by \<open>file\<close>. Its \<open>setup_parser\<close>, here \<open>validators_setup_parser\<close>, calls
  \<open>parse_args\<close> without a namespace, so the parse starts from an empty one. The first
  argument is the file system at the time of the call.
\<close>

definition source_directory_action :: "(string \<times> node) list \<Rightarrow> action" where
  "source_directory_action fsl = positional ''source_directory'' NargsNone None (TypeDirectory fsl)"

definition files_positional_action :: "(string \<times> node) list \<Rightarrow> action" where
  "files_positional_action fsl = positional ''files'' NargsOneOrMore None (TypeFile fsl)"

definition validators_actions :: "(string \<times> node) list \<Rightarrow> action list" where
  "validators_actions fsl =
     [help_action, source_directory_action fsl, files_positional_action fsl]"

definition validators_setup_parser ::
  "(string \<times> node) list \<Rightarrow> string list \<Rightarrow> namespace result" where
  "validators_setup_parser fsl argv = parse_args (validators_actions fsl) [] argv"

section \<open>Notions used in the proofs\<close>

text \<open>
  The parse only ever writes to the namespace; it reads it when it adds the defaults
  and when it converts them at the end. \<open>apply_writes ws n\<close> is the namespace \<open>n\<close>
  after the assignments \<open>ws\<close>, each the value stored for an action; \<open>param F st t j C\<close>
  says that \<open>F\<close> run from the state \<open>st\<close> ends in \<open>t\<close> at index \<open>j\<close>, and that
  from any other namespace it takes the same steps and makes the same
  assignments, all for actions in \<open>C\<close>.
\<close>

definition apply_writes :: "(action \<times> pyvalue) list \<Rightarrow> namespace \<Rightarrow> namespace" where
  "apply_writes ws n = fold (\<lambda>(a, v) m. setattr m (dest a) v) ws n"

definition tuple_actions :: "env \<Rightarrow> action set" where
  "tuple_actions ev = {a. \<exists>os sep ex. Some (Some a, os, sep, ex) \<in> set (option_string_indices ev)}"

definition short_actions :: "env \<Rightarrow> action set" where
  "short_actions ev =
     {a. \<exists>c0 c1. map_of (option_string_actions (actions ev)) [c0, c1] = Some a}"

definition param ::
  "(pstate \<Rightarrow> (pstate \<times> nat) result) \<Rightarrow> pstate \<Rightarrow> pstate \<Rightarrow> nat \<Rightarrow> action set \<Rightarrow> bool" where
  "param F st t j C \<longleftrightarrow>
     (\<exists>ws. fst ` set ws \<subseteq> {a \<in> C. action_class a \<noteq> HelpAction}
        \<and> seen_actions t = seen_actions st \<union> fst ` set ws
        \<and> set (positionals t) \<subseteq> set (positionals st)
        \<and> (\<forall>n. F (st\<lparr>ns := n\<rparr>) = Inr (t\<lparr>ns := apply_writes ws n\<rparr>, j)))"

definition cands :: "env \<Rightarrow> pstate \<Rightarrow> action set" where
  "cands ev st = set (positionals st) \<union> tuple_actions ev \<union> short_actions ev"

text \<open>The assignments as an association list, the last one first; the conversion of
  the default of the size that ends a parse of main.py; and the attributes that the
  defaults of main.py give the namespace.\<close>

definition write_list :: "(action \<times> pyvalue) list \<Rightarrow> (string \<times> pyvalue) list" where
  "write_list ws = rev (map (\<lambda>(a, v). (dest a, v)) ws)"

definition convert_size :: "action set \<Rightarrow> namespace \<Rightarrow> namespace" where
  "convert_size S n =
     (if size_action \<notin> S \<and> map_of n ''size'' = Some (VStr ''1MB'')
      then setattr n ''size'' (VInt 1048576) else n)"

definition main_keys :: "string list" where
  "main_keys = [''source'', ''optional_destination'', ''files'', ''required_files'',
     ''verbose'', ''mode'', ''size'']"


text \<open>The characters that an expression can match: \<open>rx_within C x\<close> says that the item
  \<open>x\<close> of an expression only matches characters of \<open>C\<close>.\<close>

definition rx_within :: "char set \<Rightarrow> rx \<Rightarrow> bool" where
  "rx_within C x = (case x of Lit c \<Rightarrow> c \<in> C | Opt c \<Rightarrow> c \<in> C | Star cs \<Rightarrow> set cs \<subseteq> C)"

definition argument_char :: "char \<Rightarrow> bool" where
  "argument_char c = (c = CHR ''A'' \<or> c = CHR ''-'')"

text \<open>An argument string that the parser reads as the option \<open>--required-files\<close>: the
  option string itself, an abbreviation of it, or either followed by \<open>=\<close> and a value.\<close>

definition names_required_files :: "string \<Rightarrow> bool" where
  "names_required_files t =
     (case parse_optional main_actions t of
        Inr (Some (Some a, os, sep, ex)) \<Rightarrow> a = required_files_action
      | _ \<Rightarrow> False)"

text \<open>\<open>extends ev1 ev\<close>: the command line of \<open>ev\<close> is the one of \<open>ev1\<close> followed by an
  option string and more.\<close>

definition extends :: "env \<Rightarrow> env \<Rightarrow> bool" where
  "extends ev1 ev \<longleftrightarrow>
     actions ev = actions ev1
     \<and> (\<exists>rest. arg_strings ev = arg_strings ev1 @ rest)
     \<and> (\<exists>p'. arg_strings_pattern ev = arg_strings_pattern ev1 @ CHR ''O'' # p')
     \<and> (\<exists>t ts'. option_string_indices ev = option_string_indices ev1 @ Some t # ts')
     \<and> length (arg_strings ev1) = length (arg_strings_pattern ev1)
     \<and> length (option_string_indices ev1) = length (arg_strings_pattern ev1)"

text \<open>The two errors that \<open>parse_args\<close> raises after the loop over the argument
  strings: required arguments that are missing, and arguments that no action has
  taken.\<close>

fun after_loop :: "stop \<Rightarrow> bool" where
  "after_loop (ExitError (RequiredArguments xs)) = True"
| "after_loop (ExitError (UnrecognizedArguments xs)) = True"
| "after_loop e = False"

text \<open>
  The states of the class \<open>FileProcessorNamespace\<close>: \<open>setup_parser\<close> passes the class
  itself as namespace, so a parse starts from the attributes that the parses before
  it in the same process have set. The class is fresh when the module is loaded,
  and every parse that returns leaves it as the namespace it returns.
\<close>

inductive class_state :: "namespace \<Rightarrow> bool" where
  fresh: "class_state FileProcessorNamespace"
| parsed: "class_state s \<Longrightarrow> setup_parser s argv = Inr s' \<Longrightarrow> class_state s'"

section \<open>Properties of the size converter\<close>

lemma strip_padded:
  assumes "\<forall>c\<in>set ws1. py_isspace c" and "\<forall>c\<in>set ws2. py_isspace c"
  shows "py_strip (ws1 @ m @ ws2) = py_strip m"
proof -
  have l: "dropWhile py_isspace (ws1 @ m @ ws2) = dropWhile py_isspace (m @ ws2)"
    using assms(1) by (simp add: dropWhile_append2)
  show ?thesis
  proof (cases "\<forall>c\<in>set m. py_isspace c")
    case True
    then have a: "dropWhile py_isspace (ws1 @ m @ ws2) = []"
      and b: "dropWhile py_isspace m = []"
      using assms by (auto simp: dropWhile_eq_Nil_conv)
    show ?thesis unfolding py_strip_def a b ..
  next
    case False
    then have "dropWhile py_isspace (m @ ws2) = dropWhile py_isspace m @ ws2"
      by (auto simp: dropWhile_append1)
    moreover have "dropWhile py_isspace (rev ws2 @ rev (dropWhile py_isspace m))
        = dropWhile py_isspace (rev (dropWhile py_isspace m))"
      using assms(2) by (intro dropWhile_append2) simp
    ultimately show ?thesis using l by (simp add: py_strip_def)
  qed
qed

lemma slices_append2: "length u = 2 \<Longrightarrow> all_but_last2 (m @ u) = m \<and> last2 (m @ u) = u"
  by (simp add: all_but_last2_def last2_def)

lemma py_upper_length: "length (py_upper u) = length u"
  by (simp add: py_upper_def)

lemma parse_size_unit_only:
  "length u = 2 \<Longrightarrow> length u' = 2 \<Longrightarrow> py_upper u' = py_upper u \<Longrightarrow>
   py_strip m' = py_strip m \<Longrightarrow> parse_size (m' @ u') = parse_size (m @ u)"
  by (simp add: parse_size_def slices_append2 Let_def cong: sum.case_cong)

lemma upper_units: "py_upper ''KB'' = ''KB''" "py_upper ''MB'' = ''MB''" "py_upper ''GB'' = ''GB''"
  by (simp_all add: py_upper_def upper_char_def)

lemma parse_size_500KB: "parse_size ''500KB'' = Inr 512000"
  by code_simp

lemma parse_size_1MB: "parse_size ''1MB'' = Inr 1048576"
  by code_simp

lemma parse_size_5g: "parse_size ''5g'' = Inl (FloatValueError [])"
  by code_simp

text \<open>
  The key \<open>B\<close> of the unit table is never looked up with success: the unit is the
  last two characters, so it is a single character only for a one-character input,
  whose magnitude is then the empty string, on which \<open>float\<close> fails.
\<close>

lemma unit_B_unreachable:
  assumes "py_upper (last2 s) = ''B''"
  shows "parse_size s = Inl (FloatValueError [])"
proof -
  have "length (last2 s) = 1" using assms py_upper_length [of "last2 s"] by simp
  then have "length s = 1" by (auto simp: last2_def split: if_splits)
  then have "all_but_last2 s = []" by (simp add: all_but_last2_def)
  then show ?thesis by (simp add: parse_size_def py_float_def py_strip_def)
qed

text \<open>
  C2. The converter is claimed to return magnitude times unit factor for every
  magnitude followed by a declared unit, in particular 500 for \<open>500B\<close>. On \<open>500B\<close> the
  magnitude read is \<open>50\<close> and the unit looked up is \<open>0B\<close>, which is not in the table:
  the call raises \<open>KeyError\<close>.
\<close>

theorem parse_size_500B: "parse_size ''500B'' = Inl (KeyError ''0B'')"
  by code_simp

text \<open>
  C9. Whenever all but the last two characters of the input convert to a float and
  the last two characters, upper-cased, are not a key of the unit table, \<open>parse_size\<close>
  raises \<open>KeyError\<close>, which is not a \<open>ValueError\<close>.
\<close>

theorem parse_size_key_error:
  assumes "py_float (py_strip (all_but_last2 s)) = Inr x"
    and "py_upper (last2 s) \<notin> {''B'', ''KB'', ''MB'', ''GB''}"
  shows "parse_size s = Inl (KeyError (py_upper (last2 s)))
         \<and> \<not> is_ValueError (KeyError (py_upper (last2 s)))"
proof -
  have "map_of units (py_upper (last2 s)) = None"
    using assms(2) by (simp add: units_def)
  then show ?thesis using assms(1) by (simp add: parse_size_def)
qed

theorem parse_size_key_error_witness:
  "parse_size ''500XY'' = Inl (KeyError ''XY'') \<and> parse_size ''100B'' = Inl (KeyError ''0B'')"
proof -
  have f1: "py_float (py_strip (all_but_last2 ''500XY'')) = Inr (Finite 8796093022208000 (- 44))"
    by code_simp
  have u1: "py_upper (last2 ''500XY'') = ''XY''"
    by code_simp
  have f2: "py_float (py_strip (all_but_last2 ''100B'')) = Inr (Finite 5629499534213120 (- 49))"
    by code_simp
  have u2: "py_upper (last2 ''100B'') = ''0B''"
    by code_simp
  show ?thesis
    using parse_size_key_error [OF f1] parse_size_key_error [OF f2] u1 u2 by simp
qed

text \<open>
  C10. The two-character unit is matched in any casing, and whitespace around the
  magnitude is ignored: an input made of whitespace, a magnitude, whitespace and
  any casing of \<open>KB\<close>, \<open>MB\<close> or \<open>GB\<close> converts exactly as the magnitude followed by the
  upper-case unit does.
\<close>

theorem parse_size_case_insensitive:
  assumes "u \<in> {''KB'', ''MB'', ''GB''}" and "py_upper u' = u"
    and "\<forall>c\<in>set ws1. py_isspace c" and "\<forall>c\<in>set ws2. py_isspace c"
  shows "parse_size (ws1 @ m @ ws2 @ u') = parse_size (m @ u)"
proof -
  have lu: "length u = 2" using assms(1) by auto
  then have lu': "length u' = 2" using assms(2) py_upper_length [of u'] by simp
  have "py_upper u = u" using assms(1) upper_units by auto
  then have "py_upper u' = py_upper u" using assms(2) by simp
  moreover have "py_strip (ws1 @ m @ ws2) = py_strip m"
    using assms(3,4) by (rule strip_padded)
  ultimately have "parse_size ((ws1 @ m @ ws2) @ u') = parse_size (m @ u)"
    using lu lu' by (intro parse_size_unit_only)
  then show ?thesis by simp
qed

theorem parse_size_case_insensitive_witness:
  "parse_size '' 500 kb'' = Inr 512000 \<and> parse_size ''500kb'' = Inr 512000"
proof -
  have sp: "\<forall>c\<in>set '' ''. py_isspace c" by (simp add: py_isspace_def)
  have up: "py_upper ''kb'' = ''KB''" by code_simp
  have "parse_size ('' '' @ ''500'' @ '' '' @ ''kb'') = parse_size (''500'' @ ''KB'')"
    using parse_size_case_insensitive [of "''KB''" "''kb''" "'' ''" "'' ''" "''500''"] sp up
    by simp
  moreover have "parse_size ([] @ ''500'' @ [] @ ''kb'') = parse_size (''500'' @ ''KB'')"
    using parse_size_case_insensitive [of "''KB''" "''kb''" "[]" "[]" "''500''"] up
    by simp
  ultimately show ?thesis using parse_size_500KB by simp
qed

section \<open>Properties of the parser of main.py\<close>

lemma help_action_fields [simp]:
  "option_strings help_action = [''-h'', ''--help'']"
  "dest help_action = ''==SUPPRESS==''"
  "nargs help_action = NargsCount 0"
  "const_value help_action = VNone"
  "default_value help_action = VStr ''==SUPPRESS==''"
  "type_func help_action = TypeNone"
  "choices help_action = None"
  "required help_action = False"
  "action_class help_action = HelpAction"
  by (simp_all add: help_action_def positional_def optional_def store_true_def optional_dest_def
      is_long_def SUPPRESS_def)

lemma source_action_fields [simp]:
  "option_strings source_action = []"
  "dest source_action = ''source''"
  "nargs source_action = NargsNone"
  "const_value source_action = VNone"
  "default_value source_action = VNone"
  "type_func source_action = TypeNone"
  "choices source_action = None"
  "required source_action = True"
  "action_class source_action = StoreAction"
  by (simp_all add: source_action_def positional_def optional_def store_true_def optional_dest_def
      is_long_def SUPPRESS_def)

lemma optional_destination_action_fields [simp]:
  "option_strings optional_destination_action = []"
  "dest optional_destination_action = ''optional_destination''"
  "nargs optional_destination_action = NargsOptional"
  "const_value optional_destination_action = VNone"
  "default_value optional_destination_action = VStr ''default_value''"
  "type_func optional_destination_action = TypeNone"
  "choices optional_destination_action = None"
  "required optional_destination_action = False"
  "action_class optional_destination_action = StoreAction"
  by (simp_all add: optional_destination_action_def positional_def optional_def store_true_def optional_dest_def
      is_long_def SUPPRESS_def)

lemma files_action_fields [simp]:
  "option_strings files_action = [''--files'']"
  "dest files_action = ''files''"
  "nargs files_action = NargsZeroOrMore"
  "const_value files_action = VNone"
  "default_value files_action = VList []"
  "type_func files_action = TypeNone"
  "choices files_action = None"
  "required files_action = False"
  "action_class files_action = StoreAction"
  by (simp_all add: files_action_def positional_def optional_def store_true_def optional_dest_def
      is_long_def SUPPRESS_def)

lemma required_files_action_fields [simp]:
  "option_strings required_files_action = [''--required-files'']"
  "dest required_files_action = ''required_files''"
  "nargs required_files_action = NargsOneOrMore"
  "const_value required_files_action = VNone"
  "default_value required_files_action = VNone"
  "type_func required_files_action = TypeNone"
  "choices required_files_action = None"
  "required required_files_action = False"
  "action_class required_files_action = StoreAction"
  by (simp_all add: required_files_action_def positional_def optional_def store_true_def optional_dest_def
      is_long_def SUPPRESS_def)

lemma verbose_action_fields [simp]:
  "option_strings verbose_action = [''-v'', ''--verbose'']"
  "dest verbose_action = ''verbose''"
  "nargs verbose_action = NargsCount 0"
  "const_value verbose_action = VBool True"
  "default_value verbose_action = VBool False"
  "type_func verbose_action = TypeNone"
  "choices verbose_action = None"
  "required verbose_action = False"
  "action_class verbose_action = StoreTrueAction"
  by (simp_all add: verbose_action_def positional_def optional_def store_true_def optional_dest_def
      is_long_def SUPPRESS_def)

lemma mode_action_fields [simp]:
  "option_strings mode_action = [''-m'', ''--mode'']"
  "dest mode_action = ''mode''"
  "nargs mode_action = NargsNone"
  "const_value mode_action = VNone"
  "default_value mode_action = VStr ''auto''"
  "type_func mode_action = TypeNone"
  "choices mode_action = Some [VStr ''auto'', VStr ''manual'']"
  "required mode_action = False"
  "action_class mode_action = StoreAction"
  by (simp_all add: mode_action_def positional_def optional_def store_true_def optional_dest_def
      is_long_def SUPPRESS_def)

lemma size_action_fields [simp]:
  "option_strings size_action = [''-s'', ''--size'']"
  "dest size_action = ''size''"
  "nargs size_action = NargsNone"
  "const_value size_action = VNone"
  "default_value size_action = VStr ''1MB''"
  "type_func size_action = TypeParseSize"
  "choices size_action = None"
  "required size_action = False"
  "action_class size_action = StoreAction"
  by (simp_all add: size_action_def positional_def optional_def store_true_def optional_dest_def
      is_long_def SUPPRESS_def)

lemma main_option_strings:
  "option_string_actions main_actions =
     [(''-h'', help_action), (''--help'', help_action), (''--files'', files_action),
      (''--required-files'', required_files_action), (''-v'', verbose_action),
      (''--verbose'', verbose_action), (''-m'', mode_action), (''--mode'', mode_action),
      (''-s'', size_action), (''--size'', size_action)]"
  by (simp add: option_string_actions_def main_actions_def)

lemma main_dests:
  "map dest main_actions =
     [''==SUPPRESS=='', ''source'', ''optional_destination'', ''files'', ''required_files'',
      ''verbose'', ''mode'', ''size'']"
  by (simp add: main_actions_def)

lemma distinct_main_actions: "distinct main_actions"
proof -
  have "distinct (map dest main_actions)" unfolding main_dests by simp
  then show ?thesis by (rule distinct_map [THEN iffD1, THEN conjunct1])
qed

lemma main_actions_neq [simp]:
  "help_action \<noteq> source_action"
  "help_action \<noteq> optional_destination_action"
  "help_action \<noteq> files_action"
  "help_action \<noteq> required_files_action"
  "help_action \<noteq> verbose_action"
  "help_action \<noteq> mode_action"
  "help_action \<noteq> size_action"
  "source_action \<noteq> help_action"
  "source_action \<noteq> optional_destination_action"
  "source_action \<noteq> files_action"
  "source_action \<noteq> required_files_action"
  "source_action \<noteq> verbose_action"
  "source_action \<noteq> mode_action"
  "source_action \<noteq> size_action"
  "optional_destination_action \<noteq> help_action"
  "optional_destination_action \<noteq> source_action"
  "optional_destination_action \<noteq> files_action"
  "optional_destination_action \<noteq> required_files_action"
  "optional_destination_action \<noteq> verbose_action"
  "optional_destination_action \<noteq> mode_action"
  "optional_destination_action \<noteq> size_action"
  "files_action \<noteq> help_action"
  "files_action \<noteq> source_action"
  "files_action \<noteq> optional_destination_action"
  "files_action \<noteq> required_files_action"
  "files_action \<noteq> verbose_action"
  "files_action \<noteq> mode_action"
  "files_action \<noteq> size_action"
  "required_files_action \<noteq> help_action"
  "required_files_action \<noteq> source_action"
  "required_files_action \<noteq> optional_destination_action"
  "required_files_action \<noteq> files_action"
  "required_files_action \<noteq> verbose_action"
  "required_files_action \<noteq> mode_action"
  "required_files_action \<noteq> size_action"
  "verbose_action \<noteq> help_action"
  "verbose_action \<noteq> source_action"
  "verbose_action \<noteq> optional_destination_action"
  "verbose_action \<noteq> files_action"
  "verbose_action \<noteq> required_files_action"
  "verbose_action \<noteq> mode_action"
  "verbose_action \<noteq> size_action"
  "mode_action \<noteq> help_action"
  "mode_action \<noteq> source_action"
  "mode_action \<noteq> optional_destination_action"
  "mode_action \<noteq> files_action"
  "mode_action \<noteq> required_files_action"
  "mode_action \<noteq> verbose_action"
  "mode_action \<noteq> size_action"
  "size_action \<noteq> help_action"
  "size_action \<noteq> source_action"
  "size_action \<noteq> optional_destination_action"
  "size_action \<noteq> files_action"
  "size_action \<noteq> required_files_action"
  "size_action \<noteq> verbose_action"
  "size_action \<noteq> mode_action"
  using distinct_main_actions by (auto simp: main_actions_def)

lemma main_defaults:
  "add_defaults main_actions [] =
     [(''source'', VNone), (''optional_destination'', VStr ''default_value''),
      (''files'', VList []), (''required_files'', VNone), (''verbose'', VBool False),
      (''mode'', VStr ''auto''), (''size'', VStr ''1MB'')]"
  by code_simp

lemma main_positionals:
  "filter (\<lambda>a. option_strings a = []) main_actions = [source_action, optional_destination_action]"
  by (simp add: main_actions_def)

lemma match_one: "match_arguments_partial [source_action, optional_destination_action] ''A'' = [1, 0]"
  by code_simp

lemma classify_argument:
  "parse_optional acts t = Inr None \<Longrightarrow> t \<noteq> ''--'' \<Longrightarrow>
   classify acts (t # rest) =
     (case classify acts rest of Inl e \<Rightarrow> Inl e | Inr (p, ts) \<Rightarrow> Inr (CHR ''A'' # p, None # ts))"
  by (simp split: sum.splits)

lemma no_options: "max_option_string_index \<lparr>actions = acts, arg_strings = args,
   arg_strings_pattern = p, option_string_indices = [None]\<rparr> = - 1"
  by (simp add: max_option_string_index_def option_indices_def option_tuple_at_def)

text \<open>
  C3. A command line that consists of one argument string only, the source, is
  parsed with success; every other attribute has its default, and the default
  \<open>1MB\<close> of the size has been converted to 1048576. An argument string is one that
  \<open>_parse_optional\<close> does not take for an option and that is not \<open>--\<close>.
\<close>

theorem only_source:
  assumes "parse_optional main_actions src = Inr None" and "src \<noteq> ''--''"
  shows "setup_parser FileProcessorNamespace [src] =
    Inr [(''source'', VStr src), (''optional_destination'', VStr ''default_value''),
         (''files'', VList []), (''required_files'', VNone), (''verbose'', VBool False),
         (''mode'', VStr ''auto''), (''size'', VInt 1048576)]"
proof -
  define ev where "ev = \<lparr>actions = main_actions, arg_strings = [src],
    arg_strings_pattern = ''A'', option_string_indices = [None]\<rparr>"
  define st0 where "st0 = \<lparr>ns = add_defaults main_actions [], seen_actions = {},
    positionals = [source_action, optional_destination_action], extras = []\<rparr>"
  define n2 where "n2 = [(''source'', VStr src), (''optional_destination'', VStr ''default_value''),
         (''files'', VList []), (''required_files'', VNone), (''verbose'', VBool False),
         (''mode'', VStr ''auto''), (''size'', VStr ''1MB'')]"
  define st2 where "st2 = \<lparr>ns = n2, seen_actions = {optional_destination_action, source_action},
    positionals = [], extras = []\<rparr>"
  have c: "classify main_actions [src] = Inr (''A'', [None])"
    using assms by (simp add: classify_argument)
  have gs: "get_values source_action [src] = Inr (VStr src)"
    using assms(2) by (simp add: get_values_def get_value_def check_value_def call_type_def)
  have gd: "get_values optional_destination_action [] = Inr (VStr ''default_value'')"
    by code_simp
  have loop: "consume_loop ev st0 0 = Inr (st0, 0)"
    by (subst consume_loop.simps) (simp add: ev_def no_options)
  have pos: "consume_positionals ev st0 0 = Inr (st2, 1)"
    by (simp add: consume_positionals_def ev_def st0_def match_one take_action_def gs gd
        main_defaults st2_def n2_def)
  have gm: "get_value mode_action ''auto'' = Inr (VStr ''auto'')"
    by code_simp
  have gz: "get_value size_action ''1MB'' = Inr (VInt 1048576)"
    by code_simp
  have fin: "finish_actions {optional_destination_action, source_action} main_actions n2 [] =
     Inr ([(''source'', VStr src), (''optional_destination'', VStr ''default_value''),
         (''files'', VList []), (''required_files'', VNone), (''verbose'', VBool False),
         (''mode'', VStr ''auto''), (''size'', VInt 1048576)], [])"
    by (simp add: main_actions_def n2_def hasattr_def getattr_def gm gz)
  show ?thesis
    unfolding setup_parser_def parse_args_def parse_known_args_def FileProcessorNamespace_def
      c main_positionals
    using loop pos fin
    by (simp add: Let_def ev_def st0_def st2_def del: classify.simps)
qed

theorem only_source_witness:
  "setup_parser FileProcessorNamespace [''my_source_directory''] =
    Inr [(''source'', VStr ''my_source_directory''),
         (''optional_destination'', VStr ''default_value''),
         (''files'', VList []), (''required_files'', VNone), (''verbose'', VBool False),
         (''mode'', VStr ''auto''), (''size'', VInt 1048576)]"
proof -
  have "parse_optional main_actions ''my_source_directory'' = Inr None"
    by code_simp
  then show ?thesis by (rule only_source) simp
qed

text \<open>
  C1. With \<open>--size 500KB\<close> the size is 512000; without \<open>--size\<close> it is the converted
  default, 1048576; with \<open>--size 5g\<close> the parser stops with the error
  \<open>argument -s/--size: invalid parse_size value: '5g'\<close>.
\<close>

theorem size_argument:
  "setup_parser FileProcessorNamespace [''src'', ''--size'', ''500KB''] =
     Inr [(''source'', VStr ''src''), (''optional_destination'', VStr ''default_value''),
          (''files'', VList []), (''required_files'', VNone), (''verbose'', VBool False),
          (''mode'', VStr ''auto''), (''size'', VInt 512000)]
   \<and> setup_parser FileProcessorNamespace [''src''] =
     Inr [(''source'', VStr ''src''), (''optional_destination'', VStr ''default_value''),
          (''files'', VList []), (''required_files'', VNone), (''verbose'', VBool False),
          (''mode'', VStr ''auto''), (''size'', VInt 1048576)]
   \<and> setup_parser FileProcessorNamespace [''src'', ''--size'', ''5g''] =
     Inl (ExitError (ArgumentError ''-s/--size'' (InvalidValue ''parse_size'' ''5g'')))"
  by code_simp

text \<open>
  C7. Every failing converter input is claimed to end in the parser's own error.
  The size \<open>500XY\<close> does not: \<open>parse_size\<close> raises \<open>KeyError\<close>, which the parser does not
  catch, and the script ends with that exception.
\<close>

theorem size_uncaught_exception:
  "setup_parser FileProcessorNamespace [''src'', ''--size'', ''500XY''] =
     Inl (Uncaught (KeyError ''XY''))"
  by code_simp

lemma indices_AOA:
  assumes "option_string_indices ev = [None, Some t, None]"
  shows "option_indices ev = [1]"
proof -
  have "[0..<3] = [0, 1, 2]" by (simp add: upt_rec)
  then show ?thesis using assms by (cases t) (simp add: option_indices_def option_tuple_at_def)
qed

lemma parse_optional_src: "parse_optional main_actions ''src'' = Inr None"
  by code_simp

lemma parse_optional_mode:
  "parse_optional main_actions ''--mode'' = Inr (Some (Some mode_action, ''--mode'', None, None))"
  by (simp add: parse_optional_def main_option_strings)

lemma match_source_first:
  "match_arguments_partial [source_action, optional_destination_action] ''AOA'' = [1, 0]"
  by code_simp

lemma match_mode_A: "match_argument mode_action ''A'' = Inr 1"
  by code_simp

lemma get_values_src: "get_values source_action [''src''] = Inr (VStr ''src'')"
  by code_simp

lemma get_values_default_destination:
  "get_values optional_destination_action [] = Inr (VStr ''default_value'')"
  by code_simp

lemma mode_invalid_choice:
  assumes "parse_optional main_actions v = Inr None" and "v \<noteq> ''--''"
    and "v \<notin> {''auto'', ''manual''}"
  shows "setup_parser FileProcessorNamespace [''src'', ''--mode'', v] =
      Inl (ExitError (ArgumentError ''-m/--mode''
             (InvalidChoice (VStr v) [VStr ''auto'', VStr ''manual''])))"
proof -
  define tm :: option_tuple where "tm = (Some mode_action, ''--mode'', None, None)"
  define ev where "ev = \<lparr>actions = main_actions, arg_strings = [''src'', ''--mode'', v],
    arg_strings_pattern = ''AOA'', option_string_indices = [None, Some tm, None]\<rparr>"
  define st0 where "st0 = \<lparr>ns = add_defaults main_actions [], seen_actions = {},
    positionals = [source_action, optional_destination_action], extras = []\<rparr>"
  define st1 where "st1 = \<lparr>ns = [(''source'', VStr ''src''),
      (''optional_destination'', VStr ''default_value''),
      (''files'', VList []), (''required_files'', VNone), (''verbose'', VBool False),
      (''mode'', VStr ''auto''), (''size'', VStr ''1MB'')],
    seen_actions = {optional_destination_action, source_action},
    positionals = [], extras = []\<rparr>"
  define err where "err = ExitError (ArgumentError ''-m/--mode''
             (InvalidChoice (VStr v) [VStr ''auto'', VStr ''manual'']))"
  have c: "classify main_actions [''src'', ''--mode'', v] = Inr (''AOA'', [None, Some tm, None])"
    using assms(1,2) by (simp add: parse_optional_src parse_optional_mode tm_def)
  have ix: "option_indices ev = [1]"
    by (rule indices_AOA) (simp add: ev_def)
  have mx: "max_option_string_index ev = 1"
    by (simp add: max_option_string_index_def ix)
  have nx: "next_option_string_index ev 0 = 1" "next_option_string_index ev 1 = 1"
    by (simp_all add: next_option_string_index_def ix)
  have pos: "consume_positionals ev st0 0 = Inr (st1, 1)"
    by (simp add: consume_positionals_def ev_def st0_def match_source_first take_action_def
        get_values_src get_values_default_destination main_defaults st1_def)
  have gv: "get_values mode_action [v] = Inl err"
    using assms(3) by (simp add: get_values_def get_value_def check_value_def call_type_def
        get_action_name_def join_def err_def)
  have el: "explicit_loop ev 1 [] mode_action ''--mode'' None None =
      Inr ([(mode_action, [v], ''--mode'')], [], 3)"
    by (simp add: ev_def match_mode_A)
  have ot: "option_tuple_at ev 1 = Some tm" "option_tuple_at ev 0 = None"
    by (simp_all add: option_tuple_at_def ev_def)
  have ta: "take_actions (st1\<lparr>extras := extras st1 @ []\<rparr>) [(mode_action, [v], ''--mode'')] = Inl err"
    by (simp add: take_action_def gv)
  have opt: "consume_optional ev st1 1 = Inl err"
    unfolding consume_optional_def ot tm_def by (simp only: el ta option.case prod.case sum.case)
  have l1: "consume_loop ev st1 1 = Inl err"
    by (subst consume_loop.simps) (simp add: mx nx opt ot del: One_nat_def)
  have l0: "consume_loop ev st0 0 = Inl err"
    by (subst consume_loop.simps) (simp add: mx nx pos l1 del: One_nat_def)
  show ?thesis
    unfolding setup_parser_def parse_args_def parse_known_args_def FileProcessorNamespace_def
      c main_positionals
    using l0
    by (simp add: Let_def ev_def st0_def err_def del: classify.simps)
qed

text \<open>
  C5. \<open>--mode manual\<close> gives the mode \<open>manual\<close>, and \<open>--mode v\<close> for an argument
  string \<open>v\<close> other than \<open>auto\<close> and \<open>manual\<close> stops with the error
  \<open>argument -m/--mode: invalid choice: 'v' (choose from 'auto', 'manual')\<close>,
  which holds the list of allowed values.
\<close>

theorem mode_choice:
  assumes "parse_optional main_actions v = Inr None" and "v \<noteq> ''--''"
    and "v \<notin> {''auto'', ''manual''}"
  shows "setup_parser FileProcessorNamespace [''src'', ''--mode'', v] =
      Inl (ExitError (ArgumentError ''-m/--mode''
             (InvalidChoice (VStr v) [VStr ''auto'', VStr ''manual''])))
    \<and> setup_parser FileProcessorNamespace [''src'', ''--mode'', ''manual''] =
      Inr [(''source'', VStr ''src''), (''optional_destination'', VStr ''default_value''),
           (''files'', VList []), (''required_files'', VNone), (''verbose'', VBool False),
           (''mode'', VStr ''manual''), (''size'', VInt 1048576)]"
proof
  show "setup_parser FileProcessorNamespace [''src'', ''--mode'', v] =
      Inl (ExitError (ArgumentError ''-m/--mode''
             (InvalidChoice (VStr v) [VStr ''auto'', VStr ''manual''])))"
    using assms by (rule mode_invalid_choice)
  show "setup_parser FileProcessorNamespace [''src'', ''--mode'', ''manual''] =
      Inr [(''source'', VStr ''src''), (''optional_destination'', VStr ''default_value''),
           (''files'', VList []), (''required_files'', VNone), (''verbose'', VBool False),
           (''mode'', VStr ''manual''), (''size'', VInt 1048576)]"
    by code_simp
qed

theorem mode_choice_witness:
  "setup_parser FileProcessorNamespace [''src'', ''--mode'', ''nonexistent''] =
      Inl (ExitError (ArgumentError ''-m/--mode''
             (InvalidChoice (VStr ''nonexistent'') [VStr ''auto'', VStr ''manual''])))"
proof -
  have "parse_optional main_actions ''nonexistent'' = Inr None"
    by code_simp
  then show ?thesis using mode_choice [of "''nonexistent''"] by simp
qed

section \<open>The parse does not depend on the namespace it starts from\<close>

lemma map_of_setattr: "map_of (setattr n d v) = (map_of n)(d \<mapsto> v)"
  by (induction n d v rule: setattr.induct) (auto simp: fun_eq_iff)

lemma keys_setattr:
  "map fst (setattr n d v) = (if d \<in> fst ` set n then map fst n else map fst n @ [d])"
  by (induction n d v rule: setattr.induct) auto

lemma setattr_same: "map_of n d = Some v \<Longrightarrow> setattr n d v = n"
  by (induction n d v rule: setattr.induct) (auto split: if_splits)

lemma apply_writes_Nil [simp]: "apply_writes [] n = n"
  by (simp add: apply_writes_def)

lemma apply_writes_append: "apply_writes (ws @ ws') n = apply_writes ws' (apply_writes ws n)"
  by (simp add: apply_writes_def)

lemma apply_writes_single [simp]: "apply_writes [(a, v)] n = setattr n (dest a) v"
  by (simp add: apply_writes_def)

lemma paramI:
  assumes "fst ` set ws \<subseteq> {a \<in> C. action_class a \<noteq> HelpAction}" "seen_actions t = seen_actions st \<union> fst ` set ws"
    "set (positionals t) \<subseteq> set (positionals st)"
    "\<And>n. F (st\<lparr>ns := n\<rparr>) = Inr (t\<lparr>ns := apply_writes ws n\<rparr>, j)"
  shows "param F st t j C"
  using assms unfolding param_def by blast

lemma take_action_ns:
  "take_action (st\<lparr>ns := n\<rparr>) a args =
     (case get_values a args of
        Inl e \<Rightarrow> Inl e
      | Inr v \<Rightarrow>
          (case action_class a of
             StoreAction \<Rightarrow>
               Inr (st\<lparr>seen_actions := insert a (seen_actions st), ns := setattr n (dest a) v\<rparr>)
           | StoreTrueAction \<Rightarrow>
               Inr (st\<lparr>seen_actions := insert a (seen_actions st),
                     ns := setattr n (dest a) (const_value a)\<rparr>)
           | HelpAction \<Rightarrow> Inl ExitHelp))"
  by (simp add: take_action_def split: sum.splits action_class.splits)

lemma take_action_self: "take_action st a args = take_action (st\<lparr>ns := ns st\<rparr>) a args"
  by simp

text \<open>The value that a successful \<open>take_action\<close> writes.\<close>

lemma take_action_param:
  assumes "take_action st a args = Inr t"
  shows "\<exists>v. seen_actions t = insert a (seen_actions st) \<and> positionals t = positionals st
     \<and> extras t = extras st \<and> action_class a \<noteq> HelpAction
     \<and> (\<forall>n. take_action (st\<lparr>ns := n\<rparr>) a args = Inr (t\<lparr>ns := setattr n (dest a) v\<rparr>))"
proof -
  from assms have "take_action (st\<lparr>ns := ns st\<rparr>) a args = Inr t" by simp
  then show ?thesis
    unfolding take_action_ns
    by (auto split: sum.splits action_class.splits)
qed


lemma take_actions_param:
  assumes "take_actions st tr = Inr t"
  shows "\<exists>ws. fst ` set ws = fst ` set tr
     \<and> (\<forall>a\<in>fst ` set ws. action_class a \<noteq> HelpAction)
     \<and> seen_actions t = seen_actions st \<union> fst ` set ws \<and> positionals t = positionals st
     \<and> extras t = extras st
     \<and> (\<forall>n. take_actions (st\<lparr>ns := n\<rparr>) tr = Inr (t\<lparr>ns := apply_writes ws n\<rparr>))"
  using assms
proof (induction tr arbitrary: st)
  case Nil
  then have "t = st" by simp
  then show ?case by (intro exI [of _ "[]"]) simp
next
  case (Cons x tr)
  obtain a args os where x: "x = (a, args, os)" by (cases x)
  from Cons.prems x obtain st1 where s1: "take_action st a args = Inr st1"
    and r: "take_actions st1 tr = Inr t"
    by (auto split: sum.splits)
  from take_action_param [OF s1] obtain v where
    v: "seen_actions st1 = insert a (seen_actions st)" "positionals st1 = positionals st"
       "extras st1 = extras st" "action_class a \<noteq> HelpAction"
       "\<And>n. take_action (st\<lparr>ns := n\<rparr>) a args = Inr (st1\<lparr>ns := setattr n (dest a) v\<rparr>)"
    by blast
  from Cons.IH [OF r] obtain ws where
    ws: "fst ` set ws = fst ` set tr" "seen_actions t = seen_actions st1 \<union> fst ` set ws"
        "positionals t = positionals st1" "extras t = extras st1"
        "\<forall>a\<in>fst ` set ws. action_class a \<noteq> HelpAction"
        "\<And>n. take_actions (st1\<lparr>ns := n\<rparr>) tr = Inr (t\<lparr>ns := apply_writes ws n\<rparr>)"
    by blast
  show ?case
  proof (intro exI [of _ "(a, v) # ws"] conjI allI)
    show "fst ` set ((a, v) # ws) = fst ` set (x # tr)" using ws(1) x by simp
    show "\<forall>b\<in>fst ` set ((a, v) # ws). action_class b \<noteq> HelpAction"
      using ws(5) v(4) by simp
    show "seen_actions t = seen_actions st \<union> fst ` set ((a, v) # ws)"
      using ws(2) v(1) by auto
    show "positionals t = positionals st" using ws(3) v(2) by simp
    show "extras t = extras st" using ws(4) v(3) by simp
    fix n
    show "take_actions (st\<lparr>ns := n\<rparr>) (x # tr) = Inr (t\<lparr>ns := apply_writes ((a, v) # ws) n\<rparr>)"
      using v(5) [of n] ws(6) [of "setattr n (dest a) v"] x
      by (simp add: apply_writes_def)
  qed
qed

lemma take_positionals_param:
  assumes "take_positionals args st i zs = Inr (t, j)"
  shows "\<exists>ws. fst ` set ws = fst ` set zs
     \<and> (\<forall>a\<in>fst ` set ws. action_class a \<noteq> HelpAction)
     \<and> seen_actions t = seen_actions st \<union> fst ` set ws \<and> positionals t = positionals st
     \<and> extras t = extras st
     \<and> (\<forall>n. take_positionals args (st\<lparr>ns := n\<rparr>) i zs = Inr (t\<lparr>ns := apply_writes ws n\<rparr>, j))"
  using assms
proof (induction zs arbitrary: st i)
  case Nil
  then have "t = st" by simp
  then show ?case using Nil by (intro exI [of _ "[]"]) simp
next
  case (Cons x zs)
  obtain a c where x: "x = (a, c)" by (cases x)
  from Cons.prems x obtain st1 where s1: "take_action st a (take c (drop i args)) = Inr st1"
    and r: "take_positionals args st1 (i + c) zs = Inr (t, j)"
    by (auto split: sum.splits)
  from take_action_param [OF s1] obtain v where
    v: "seen_actions st1 = insert a (seen_actions st)" "positionals st1 = positionals st"
       "extras st1 = extras st" "action_class a \<noteq> HelpAction"
       "\<And>n. take_action (st\<lparr>ns := n\<rparr>) a (take c (drop i args))
             = Inr (st1\<lparr>ns := setattr n (dest a) v\<rparr>)"
    by blast
  from Cons.IH [OF r] obtain ws where
    ws: "fst ` set ws = fst ` set zs" "seen_actions t = seen_actions st1 \<union> fst ` set ws"
        "positionals t = positionals st1" "extras t = extras st1"
        "\<forall>a\<in>fst ` set ws. action_class a \<noteq> HelpAction"
        "\<And>n. take_positionals args (st1\<lparr>ns := n\<rparr>) (i + c) zs
              = Inr (t\<lparr>ns := apply_writes ws n\<rparr>, j)"
    by blast
  show ?case
  proof (intro exI [of _ "(a, v) # ws"] conjI allI)
    show "fst ` set ((a, v) # ws) = fst ` set (x # zs)" using ws(1) x by simp
    show "\<forall>b\<in>fst ` set ((a, v) # ws). action_class b \<noteq> HelpAction"
      using ws(5) v(4) by simp
    show "seen_actions t = seen_actions st \<union> fst ` set ((a, v) # ws)"
      using ws(2) v(1) by auto
    show "positionals t = positionals st" using ws(3) v(2) by simp
    show "extras t = extras st" using ws(4) v(3) by simp
    fix n
    show "take_positionals args (st\<lparr>ns := n\<rparr>) i (x # zs)
        = Inr (t\<lparr>ns := apply_writes ((a, v) # ws) n\<rparr>, j)"
      using v(5) [of n] ws(6) [of "setattr n (dest a) v"] x
      by (simp add: apply_writes_def)
  qed
qed

lemma consume_positionals_param:
  assumes "consume_positionals ev st i = Inr (t, j)"
  shows "param (\<lambda>s. consume_positionals ev s i) st t j (cands ev st) \<and> extras t = extras st"
proof -
  define counts where
    "counts = match_arguments_partial (positionals st) (drop i (arg_strings_pattern ev))"
  from assms obtain t1 where
    t1: "take_positionals (arg_strings ev) st i (zip (positionals st) counts) = Inr (t1, j)"
    and t: "t = t1\<lparr>positionals := drop (length counts) (positionals t1)\<rparr>"
    by (auto simp: consume_positionals_def counts_def Let_def split: sum.splits)
  from take_positionals_param [OF t1] obtain ws where
    ws: "fst ` set ws = fst ` set (zip (positionals st) counts)"
        "seen_actions t1 = seen_actions st \<union> fst ` set ws"
        "positionals t1 = positionals st" "extras t1 = extras st"
        "\<forall>a\<in>fst ` set ws. action_class a \<noteq> HelpAction"
        "\<And>n. take_positionals (arg_strings ev) (st\<lparr>ns := n\<rparr>) i (zip (positionals st) counts)
              = Inr (t1\<lparr>ns := apply_writes ws n\<rparr>, j)"
    by blast
  have "fst ` set ws \<subseteq> cands ev st"
    unfolding ws(1) cands_def by (auto dest: set_zip_leftD)
  then have sub: "fst ` set ws \<subseteq> {a \<in> cands ev st. action_class a \<noteq> HelpAction}"
    using ws(5) by auto
  have "param (\<lambda>s. consume_positionals ev s i) st t j (cands ev st)"
  proof (rule paramI [where ws = ws])
    show "fst ` set ws \<subseteq> {a \<in> cands ev st. action_class a \<noteq> HelpAction}" by (rule sub)
    show "seen_actions t = seen_actions st \<union> fst ` set ws" using ws(2) t by simp
    show "set (positionals t) \<subseteq> set (positionals st)"
      using t ws(3) by (auto dest: in_set_dropD)
    fix n
    show "consume_positionals ev (st\<lparr>ns := n\<rparr>) i = Inr (t\<lparr>ns := apply_writes ws n\<rparr>, j)"
      using ws(6) [of n] t by (simp add: consume_positionals_def counts_def [symmetric])
  qed
  then show ?thesis using t ws(4) by simp
qed

lemma explicit_loop_actions:
  "explicit_loop ev i acc a os sep ex = Inr (ts, xs, j) \<Longrightarrow>
   fst ` set ts \<subseteq> fst ` set acc \<union> {a} \<union> short_actions ev"
proof (induction ev i acc a os sep ex rule: explicit_loop.induct)
  case (1 ev start_index acc a option_string sep)
  then show ?case by (auto split: sum.splits)
next
  case (2 ev start_index acc a option_string sep explicit_arg)
  show ?case
  proof (cases "match_argument a ''A''")
    case (Inl e)
    then show ?thesis using "2.prems" by simp
  next
    case (Inr arg_count)
    show ?thesis
    proof (cases option_string)
      case Nil
      then show ?thesis using "2.prems" Inr by simp
    next
      case (Cons c0 r)
      show ?thesis
      proof (cases r)
        case Nil
        then show ?thesis using "2.prems" Inr Cons by simp
      next
        case (Cons c1 r')
        note os = \<open>option_string = c0 # r\<close> Cons
        show ?thesis
        proof (cases "arg_count = 0 \<and> c1 \<noteq> CHR ''-'' \<and> explicit_arg \<noteq> []")
          case False
          then show ?thesis using "2.prems" Inr os by (auto split: if_splits)
        next
          case True
          show ?thesis
          proof (cases "(sep \<noteq> None \<and> sep \<noteq> Some []) \<or> hd explicit_arg = CHR ''-''")
            case t: True
            then show ?thesis using "2.prems" Inr os True by auto
          next
            case f: False
            show ?thesis
            proof (cases "map_of (option_string_actions (actions ev)) [c0, hd explicit_arg]")
              case None
              then show ?thesis using "2.prems" Inr os True f by force
            next
              case (Some a')
              then have "a' \<in> short_actions ev" unfolding short_actions_def by blast
              then show ?thesis
                using "2.prems" "2.IH" [OF Inr os(1) os(2) True f refl Some refl]
                  Inr os True f Some
                by (auto simp: Let_def split: if_splits)
            qed
          qed
        qed
      qed
    qed
  qed
qed

lemma consume_optional_param:
  assumes "consume_optional ev st i = Inr (t, j)"
  shows "param (\<lambda>s. consume_optional ev s i) st t j (cands ev st)
         \<and> positionals t = positionals st"
proof (cases "option_tuple_at ev i")
  case None
  then show ?thesis using assms by (simp add: consume_optional_def)
next
  case (Some tp)
  obtain ao os sep ex where tp: "tp = (ao, os, sep, ex)" by (cases tp)
  show ?thesis
  proof (cases ao)
    case None
    with assms Some tp have t: "t = st\<lparr>extras := extras st @ take 1 (drop i (arg_strings ev))\<rparr>"
      and j: "j = i + 1"
      by (simp_all add: consume_optional_def)
    have "param (\<lambda>s. consume_optional ev s i) st t j (cands ev st)"
      by (rule paramI [where ws = "[]"])
         (simp_all add: t j consume_optional_def Some tp None)
    then show ?thesis using t by simp
  next
    case (Some a)
    have ta: "option_tuple_at ev i = Some (Some a, os, sep, ex)"
      using \<open>option_tuple_at ev i = Some tp\<close> tp Some by simp
    from assms ta obtain ts xs where
      el: "explicit_loop ev i [] a os sep ex = Inr (ts, xs, j)"
      and tk: "take_actions (st\<lparr>extras := extras st @ xs\<rparr>) ts = Inr t"
      by (auto simp: consume_optional_def split: sum.splits)
    from take_actions_param [OF tk] obtain ws where
      ws: "fst ` set ws = fst ` set ts"
        "seen_actions t = seen_actions (st\<lparr>extras := extras st @ xs\<rparr>) \<union> fst ` set ws"
        "positionals t = positionals (st\<lparr>extras := extras st @ xs\<rparr>)"
        "\<forall>a\<in>fst ` set ws. action_class a \<noteq> HelpAction"
        "\<And>n. take_actions (st\<lparr>extras := extras st @ xs\<rparr>\<lparr>ns := n\<rparr>) ts
              = Inr (t\<lparr>ns := apply_writes ws n\<rparr>)"
      by blast
    have "a \<in> tuple_actions ev"
      using ta unfolding tuple_actions_def option_tuple_at_def
      by (auto split: if_splits simp: in_set_conv_nth)
    then have sub: "fst ` set ws \<subseteq> {a \<in> cands ev st. action_class a \<noteq> HelpAction}"
      using explicit_loop_actions [OF el] ws(1) ws(4) unfolding cands_def by auto
    have "param (\<lambda>s. consume_optional ev s i) st t j (cands ev st)"
    proof (rule paramI [where ws = ws])
      show "fst ` set ws \<subseteq> {a \<in> cands ev st. action_class a \<noteq> HelpAction}" by (rule sub)
      show "seen_actions t = seen_actions st \<union> fst ` set ws" using ws(2) by simp
      show "set (positionals t) \<subseteq> set (positionals st)" using ws(3) by simp
      fix n
      have sw: "st\<lparr>ns := n, extras := extras st @ xs\<rparr> = st\<lparr>extras := extras st @ xs, ns := n\<rparr>"
        by simp
      show "consume_optional ev (st\<lparr>ns := n\<rparr>) i = Inr (t\<lparr>ns := apply_writes ws n\<rparr>, j)"
        using ws(5) [of n] by (simp add: consume_optional_def ta el sw)
    qed
    then show ?thesis using ws(3) by simp
  qed
qed


lemma cands_mono: "set (positionals t) \<subseteq> set (positionals st) \<Longrightarrow> cands ev t \<subseteq> cands ev st"
  unfolding cands_def by auto

lemma cands_mono':
  "set (positionals t) \<subseteq> set (positionals st) \<Longrightarrow>
   {a \<in> cands ev t. action_class a \<noteq> HelpAction} \<subseteq> {a \<in> cands ev st. action_class a \<noteq> HelpAction}"
  using cands_mono by blast

lemma consume_loop_param:
  "consume_loop ev st i = Inr (t, j) \<Longrightarrow> param (\<lambda>s. consume_loop ev s i) st t j (cands ev st)"
proof (induction ev st i arbitrary: t j rule: consume_loop.induct)
  case (1 ev st i)
  show ?case
  proof (cases "int i \<le> max_option_string_index ev")
    case False
    from "1.prems" have "t = st" "j = i"
      by (subst (asm) consume_loop.simps, simp add: False)+
    moreover have "\<And>n. consume_loop ev (st\<lparr>ns := n\<rparr>) i = Inr (st\<lparr>ns := n\<rparr>, i)"
      by (subst consume_loop.simps) (simp add: False)
    ultimately show ?thesis by (intro paramI [where ws = "[]"]) simp_all
  next
    case True
    define nx where "nx = next_option_string_index ev i"
    define F where "F = (\<lambda>s. if i \<noteq> nx then consume_positionals ev s i else Inr (s, i))"
    define upd :: "nat \<Rightarrow> pstate \<Rightarrow> pstate" where "upd = (\<lambda>pend s1. if option_tuple_at ev pend = None then
          s1\<lparr>extras := extras s1 @ drop pend (take nx (arg_strings ev))\<rparr> else s1)"
    define oidx where "oidx = (\<lambda>pend. if option_tuple_at ev pend = None then nx else pend)"
    have unf: "\<And>s. consume_loop ev s i =
      (case F s of
         Inl e \<Rightarrow> Inl e
       | Inr (st1, pend) \<Rightarrow>
           if i \<noteq> nx \<and> i < pend then consume_loop ev st1 pend
           else
             (case consume_optional ev (upd pend st1) (oidx pend) of
                Inl e \<Rightarrow> Inl e
              | Inr (st3, stop) \<Rightarrow> consume_loop ev st3 stop))"
      unfolding F_def nx_def upd_def oidx_def
      by (subst consume_loop.simps) (simp add: True Let_def split: sum.splits)
    have upd_ns: "\<And>pend s1 m. upd pend (s1\<lparr>ns := m\<rparr>) = (upd pend s1)\<lparr>ns := m\<rparr>"
      by (simp add: upd_def)
    from "1.prems" obtain st1 pend where r: "F st = Inr (st1, pend)"
      unfolding unf by (auto split: sum.splits)
    have p1: "param F st st1 pend (cands ev st) \<and> extras st1 = extras st"
    proof (cases "i \<noteq> nx")
      case True
      then show ?thesis using r consume_positionals_param [of ev st i st1 pend]
        by (simp add: F_def)
    next
      case False
      then have "st1 = st" "pend = i" using r by (simp_all add: F_def)
      then show ?thesis using False
        by (intro conjI paramI [where ws = "[]"]) (simp_all add: F_def)
    qed
    then obtain ws1 where ws1: "fst ` set ws1 \<subseteq> {a \<in> cands ev st. action_class a \<noteq> HelpAction}"
      "seen_actions st1 = seen_actions st \<union> fst ` set ws1"
      "set (positionals st1) \<subseteq> set (positionals st)"
      "\<And>n. F (st\<lparr>ns := n\<rparr>) = Inr (st1\<lparr>ns := apply_writes ws1 n\<rparr>, pend)"
      unfolding param_def by blast
    show ?thesis
    proof (cases "i \<noteq> nx \<and> i < pend")
      case c: True
      from "1.prems" have rec: "consume_loop ev st1 pend = Inr (t, j)"
        unfolding unf [of st] r using c by simp
      have "param (\<lambda>s. consume_loop ev s pend) st1 t j (cands ev st1)"
      proof (rule "1.IH"(1) [OF _ nx_def _ refl c rec])
        show "\<not> \<not> int i \<le> max_option_string_index ev" using True by simp
        show "(if i \<noteq> nx then consume_positionals ev st i else Inr (st, i)) = Inr (st1, pend)"
          using r by (simp add: F_def)
      qed
      then obtain ws2 where ws2: "fst ` set ws2 \<subseteq> {a \<in> cands ev st1. action_class a \<noteq> HelpAction}"
        "seen_actions t = seen_actions st1 \<union> fst ` set ws2"
        "set (positionals t) \<subseteq> set (positionals st1)"
        "\<And>n. consume_loop ev (st1\<lparr>ns := n\<rparr>) pend = Inr (t\<lparr>ns := apply_writes ws2 n\<rparr>, j)"
        unfolding param_def by blast
      show ?thesis
      proof (rule paramI [where ws = "ws1 @ ws2"])
        show "fst ` set (ws1 @ ws2) \<subseteq> {a \<in> cands ev st. action_class a \<noteq> HelpAction}"
          using ws1(1) ws2(1) cands_mono' [OF ws1(3), of ev] by auto
        show "seen_actions t = seen_actions st \<union> fst ` set (ws1 @ ws2)"
          using ws1(2) ws2(2) by auto
        show "set (positionals t) \<subseteq> set (positionals st)"
          using ws1(3) ws2(3) by blast
        fix n
        show "consume_loop ev (st\<lparr>ns := n\<rparr>) i = Inr (t\<lparr>ns := apply_writes (ws1 @ ws2) n\<rparr>, j)"
          unfolding unf [of "st\<lparr>ns := n\<rparr>"] ws1(4) using c ws2(4)
          by (simp add: apply_writes_append)
      qed
    next
      case c: False
      define st2 where "st2 = upd pend st1"
      define oi where "oi = oidx pend"
      have pair: "(if option_tuple_at ev pend = None then
           (st1\<lparr>extras := extras st1 @ drop pend (take nx (arg_strings ev))\<rparr>, nx)
         else (st1, pend)) = (st2, oi)"
        by (simp add: st2_def oi_def upd_def oidx_def)
      from "1.prems" obtain st3 stop where co: "consume_optional ev st2 oi = Inr (st3, stop)"
        and rec: "consume_loop ev st3 stop = Inr (t, j)"
        unfolding unf [of st] r using c by (auto simp: st2_def oi_def split: sum.splits)
      have st2_props: "seen_actions st2 = seen_actions st1" "positionals st2 = positionals st1"
        by (simp_all add: st2_def upd_def)
      from consume_optional_param [OF co] obtain ws3 where ws3:
        "fst ` set ws3 \<subseteq> {a \<in> cands ev st2. action_class a \<noteq> HelpAction}"
        "seen_actions st3 = seen_actions st2 \<union> fst ` set ws3"
        "set (positionals st3) \<subseteq> set (positionals st2)"
        "\<And>n. consume_optional ev (st2\<lparr>ns := n\<rparr>) oi = Inr (st3\<lparr>ns := apply_writes ws3 n\<rparr>, stop)"
        unfolding param_def by blast
      have "param (\<lambda>s. consume_loop ev s stop) st3 t j (cands ev st3)"
      proof (rule "1.IH"(2) [OF _ nx_def _ refl c pair [symmetric] refl co refl rec])
        show "\<not> \<not> int i \<le> max_option_string_index ev" using True by simp
        show "(if i \<noteq> nx then consume_positionals ev st i else Inr (st, i)) = Inr (st1, pend)"
          using r by (simp add: F_def)
      qed
      then obtain ws4 where ws4: "fst ` set ws4 \<subseteq> {a \<in> cands ev st3. action_class a \<noteq> HelpAction}"
        "seen_actions t = seen_actions st3 \<union> fst ` set ws4"
        "set (positionals t) \<subseteq> set (positionals st3)"
        "\<And>n. consume_loop ev (st3\<lparr>ns := n\<rparr>) stop = Inr (t\<lparr>ns := apply_writes ws4 n\<rparr>, j)"
        unfolding param_def by blast
      have sub2: "cands ev st2 \<subseteq> cands ev st" "cands ev st3 \<subseteq> cands ev st"
        using cands_mono [of st2 st ev] cands_mono [of st3 st ev] ws1(3) ws3(3) st2_props(2)
        by auto
      show ?thesis
      proof (rule paramI [where ws = "ws1 @ ws3 @ ws4"])
        show "fst ` set (ws1 @ ws3 @ ws4) \<subseteq> {a \<in> cands ev st. action_class a \<noteq> HelpAction}"
          using ws1(1) ws3(1) ws4(1) sub2 by auto
        show "seen_actions t = seen_actions st \<union> fst ` set (ws1 @ ws3 @ ws4)"
          using ws1(2) ws3(2) ws4(2) st2_props(1) by auto
        show "set (positionals t) \<subseteq> set (positionals st)"
          using ws1(3) ws3(3) ws4(3) st2_props(2) by auto
        fix n
        show "consume_loop ev (st\<lparr>ns := n\<rparr>) i
            = Inr (t\<lparr>ns := apply_writes (ws1 @ ws3 @ ws4) n\<rparr>, j)"
          unfolding unf [of "st\<lparr>ns := n\<rparr>"] ws1(4) using c ws3(4) ws4(4)
          by (auto simp: apply_writes_append upd_ns st2_def [symmetric] oi_def [symmetric])
      qed
    qed
  qed
qed

section \<open>Parsing the same command line again\<close>

lemma map_of_apply_writes:
  "map_of (apply_writes ws n) = map_of n ++ map_of (write_list ws)"
proof (induction ws arbitrary: n)
  case Nil
  then show ?case by (simp add: write_list_def)
next
  case (Cons x ws)
  obtain a v where x: "x = (a, v)" by (cases x)
  have "apply_writes (x # ws) n = apply_writes ws (setattr n (dest a) v)"
    by (simp add: apply_writes_def x)
  then show ?case
    using Cons.IH [of "setattr n (dest a) v"]
    by (simp add: write_list_def x map_of_setattr map_add_def fun_eq_iff split: option.splits)
qed

lemma keys_apply_writes:
  "dest ` fst ` set ws \<subseteq> fst ` set n \<Longrightarrow> map fst (apply_writes ws n) = map fst n"
proof (induction ws arbitrary: n)
  case Nil
  then show ?case by simp
next
  case (Cons x ws)
  obtain a v where x: "x = (a, v)" by (cases x)
  have k: "map fst (setattr n (dest a) v) = map fst n"
    using Cons.prems x by (simp add: keys_setattr)
  have "apply_writes (x # ws) n = apply_writes ws (setattr n (dest a) v)"
    by (simp add: apply_writes_def x)
  moreover have "map fst (apply_writes ws (setattr n (dest a) v)) = map fst (setattr n (dest a) v)"
  proof (rule Cons.IH)
    have "fst ` set (setattr n (dest a) v) = fst ` set n"
      using k by (metis list.set_map)
    then show "dest ` fst ` set ws \<subseteq> fst ` set (setattr n (dest a) v)"
      using Cons.prems by auto
  qed
  ultimately show ?case using k by simp
qed

lemma alist_eq:
  "map fst xs = map fst ys \<Longrightarrow> distinct (map fst xs) \<Longrightarrow> map_of xs = map_of ys \<Longrightarrow> xs = ys"
proof (induction xs arbitrary: ys)
  case Nil
  then show ?case by simp
next
  case (Cons x xs)
  then obtain y ys' where ys: "ys = y # ys'" by (cases ys) auto
  obtain k v where x: "x = (k, v)" by (cases x)
  obtain k' v' where y: "y = (k', v')" by (cases y)
  from Cons.prems(1) ys x y have k: "k' = k" and m: "map fst xs = map fst ys'" by simp_all
  have eq: "map_of (x # xs) d = map_of ys d" for d
    using fun_cong [OF Cons.prems(3)] .
  have v: "v' = v" using eq [of k] ys x y k by simp
  have "map_of xs = map_of ys'"
  proof
    fix d
    show "map_of xs d = map_of ys' d"
    proof (cases "d = k")
      case True
      have "k \<notin> fst ` set xs" using Cons.prems(2) x by simp
      moreover have "k \<notin> fst ` set ys'" using Cons.prems(2) x m by (metis distinct.simps(2) list.set_map list.simps(9) fst_conv)
      ultimately have "map_of xs k = None" "map_of ys' k = None"
        by (simp_all add: map_of_eq_None_iff)
      then show ?thesis using True by simp
    next
      case False
      then show ?thesis using eq [of d] ys x y k by simp
    qed
  qed
  moreover have "distinct (map fst xs)" using Cons.prems(2) by simp
  ultimately have "xs = ys'" using m by (intro Cons.IH)
  then show ?case using ys x y k v by simp
qed

lemma get_value_identity:
  "type_func a = TypeNone \<Longrightarrow> get_value a s = Inr (VStr s)"
  by (simp add: get_value_def call_type_def)

lemma get_value_size_default: "get_value size_action ''1MB'' = Inr (VInt 1048576)"
  by code_simp

lemma finish_main_actions:
  "finish_actions S main_actions n [] =
     Inr (convert_size S n, if source_action \<in> S then [] else [''source''])"
  by (simp add: main_actions_def hasattr_def getattr_def get_value_identity get_value_size_default
      setattr_same convert_size_def get_action_name_def)


lemma option_string_actions_mem:
  "(os, a) \<in> set (option_string_actions acts) \<Longrightarrow> a \<in> set acts \<and> os \<in> set (option_strings a)"
  by (auto simp: option_string_actions_def)

lemma get_option_tuples_mem:
  "(ao, os, sep, ex) \<in> set (get_option_tuples acts s) \<Longrightarrow>
   \<exists>a. ao = Some a \<and> (os, a) \<in> set (option_string_actions acts)"
  by (auto simp: get_option_tuples_def Let_def split: list.splits if_splits prod.splits)

text \<open>Where the option tuple of an argument string comes from.\<close>

lemma parse_optional_cases:
  assumes "parse_optional acts s = Inr (Some (Some a, os, sep, ex))"
  shows "(os, a) \<in> set (option_string_actions acts) \<and>
     (os = s \<or> os = takeWhile (\<lambda>c. c \<noteq> CHR ''='') s
      \<or> get_option_tuples acts s = [(Some a, os, sep, ex)])"
proof (cases "map_of (option_string_actions acts) s")
  case (Some b)
  then show ?thesis using assms
    by (auto simp: parse_optional_def split: if_splits dest: map_of_SomeD)
next
  case None
  note n1 = None
  obtain pre found post where pt: "partition_eq s = (pre, found, post)"
    by (cases "partition_eq s")
  have pre: "pre = takeWhile (\<lambda>c. c \<noteq> CHR ''='') s"
    using pt by (simp add: partition_eq_def)
  show ?thesis
  proof (cases "if found then map_of (option_string_actions acts) pre else None")
    case (Some b)
    then show ?thesis using assms n1 pt pre
      by (auto simp: parse_optional_def split: if_splits dest: map_of_SomeD)
  next
    case None
    have one: "length (get_option_tuples acts s) = 1"
      and hd: "hd (get_option_tuples acts s) = (Some a, os, sep, ex)"
      using assms n1 pt None
      by (auto simp: parse_optional_def Let_def split: if_splits)
    then have l: "get_option_tuples acts s = [(Some a, os, sep, ex)]"
      by (cases "get_option_tuples acts s") auto
    then have "(Some a, os, sep, ex) \<in> set (get_option_tuples acts s)" by simp
    then show ?thesis using get_option_tuples_mem l by blast
  qed
qed

lemma classify_shape:
  "classify acts args = Inr (p, ts) \<Longrightarrow>
   length p = length args \<and> length ts = length args"
  by (induction args arbitrary: p ts) (auto split: if_splits sum.splits)

lemma classify_tuples:
  "classify acts args = Inr (p, ts) \<Longrightarrow> Some tp \<in> set ts \<Longrightarrow>
   \<exists>s\<in>set args. parse_optional acts s = Inr (Some tp)"
proof (induction args arbitrary: p ts)
  case Nil
  then show ?case by simp
next
  case (Cons s args)
  show ?case
  proof (cases "s = ''--''")
    case True
    then show ?thesis using Cons.prems by auto
  next
    case False
    with Cons.prems obtain t p' ts' where po: "parse_optional acts s = Inr t"
      and cl: "classify acts args = Inr (p', ts')" and ts: "ts = t # ts'"
      by (auto split: sum.splits)
    show ?thesis
    proof (cases "Some tp = t")
      case True
      then show ?thesis using po by auto
    next
      case False
      then have "Some tp \<in> set ts'" using Cons.prems(2) ts by auto
      from Cons.IH [OF cl this] show ?thesis by auto
    qed
  qed
qed

lemma tuple_actions_subset:
  assumes "classify acts args = Inr (p, ts)"
  shows "tuple_actions \<lparr>actions = acts, arg_strings = args, arg_strings_pattern = p,
           option_string_indices = ts\<rparr> \<subseteq> set acts"
proof
  fix a
  assume "a \<in> tuple_actions \<lparr>actions = acts, arg_strings = args, arg_strings_pattern = p,
           option_string_indices = ts\<rparr>"
  then obtain os sep ex where "Some (Some a, os, sep, ex) \<in> set ts"
    by (auto simp: tuple_actions_def)
  from classify_tuples [OF assms this] obtain s where
    "parse_optional acts s = Inr (Some (Some a, os, sep, ex))" by blast
  then show "a \<in> set acts"
    using parse_optional_cases option_string_actions_mem by blast
qed

lemma short_actions_subset: "short_actions ev \<subseteq> set (actions ev)"
  by (auto simp: short_actions_def dest!: map_of_SomeD option_string_actions_mem)


lemma dom_write_list: "dom (map_of (write_list ws)) = dest ` fst ` set ws"
  by (force simp: write_list_def dom_map_of_conv_image_fst image_iff)

lemma keys_convert_size: "map fst (convert_size S n) = map fst n"
proof (cases "size_action \<notin> S \<and> map_of n ''size'' = Some (VStr ''1MB'')")
  case True
  then have "''size'' \<in> fst ` set n" by (meson domI domIff map_of_eq_None_iff)
  then show ?thesis using True by (simp add: convert_size_def keys_setattr)
next
  case False
  then show ?thesis by (auto simp: convert_size_def)
qed

lemma map_of_convert_size:
  "map_of (convert_size S n) d =
     (if d = ''size'' \<and> size_action \<notin> S \<and> map_of n ''size'' = Some (VStr ''1MB'')
      then Some (VInt 1048576) else map_of n d)"
  by (simp add: convert_size_def map_of_setattr)

lemma convert_size_idem: "convert_size S (convert_size S n) = convert_size S n"
  by (simp add: convert_size_def map_of_setattr)

lemma main_dest_size: "a \<in> set main_actions \<Longrightarrow> dest a = ''size'' \<Longrightarrow> a = size_action"
  by (auto simp: main_actions_def)

lemma main_dest_keys:
  "a \<in> set main_actions \<Longrightarrow> action_class a \<noteq> HelpAction \<Longrightarrow> dest a \<in> set main_keys"
  by (auto simp: main_actions_def main_keys_def)

lemma add_defaults_present:
  assumes "map fst n = main_keys"
  shows "add_defaults main_actions n = n"
proof -
  have "set (map fst n) = set main_keys" using assms by simp
  then have k: "fst ` set n = set main_keys" by simp
  have h: "hasattr n d" if "d \<in> set main_keys" for d
    unfolding hasattr_def map_of_eq_None_iff k using that by simp
  have hs: "hasattr n ''source''" "hasattr n ''optional_destination''" "hasattr n ''files''"
    "hasattr n ''required_files''" "hasattr n ''verbose''" "hasattr n ''mode''"
    "hasattr n ''size''"
    by (rule h, simp add: main_keys_def)+
  show ?thesis
    by (simp add: add_defaults_def main_actions_def hs SUPPRESS_def)
qed

lemma keys_main_defaults: "map fst (add_defaults main_actions []) = main_keys"
  by (simp add: main_defaults main_keys_def)

text \<open>
  A successful parse of main.py, whatever namespace it starts from, is a list of
  assignments for actions of the parser other than the help action, followed by the
  conversion of the default of the size; from any other namespace the same command
  line leads to the same assignments.
\<close>

lemma setup_parser_writes:
  assumes "setup_parser nsp argv = Inr ns1"
  obtains p ts ws where
    "classify main_actions argv = Inr (p, ts)"
    "fst ` set ws \<subseteq> {a \<in> set main_actions. action_class a \<noteq> HelpAction}"
    "fst ` set ws \<subseteq> {source_action, optional_destination_action}
       \<union> tuple_actions \<lparr>actions = main_actions, arg_strings = argv,
            arg_strings_pattern = p, option_string_indices = ts\<rparr>
       \<union> short_actions \<lparr>actions = main_actions, arg_strings = argv,
            arg_strings_pattern = p, option_string_indices = ts\<rparr>"
    "source_action \<in> fst ` set ws"
    "\<And>n. setup_parser n argv =
       Inr (convert_size (fst ` set ws) (apply_writes ws (add_defaults main_actions n)))"
proof -
  obtain p ts where cl: "classify main_actions argv = Inr (p, ts)"
  proof (cases "classify main_actions argv")
    case (Inl e)
    then have "setup_parser nsp argv = Inl e"
      by (simp add: setup_parser_def parse_args_def parse_known_args_def)
    then show ?thesis using assms by simp
  next
    case (Inr r)
    then show ?thesis using that by (cases r) simp
  qed
  define ev where "ev = \<lparr>actions = main_actions, arg_strings = argv, arg_strings_pattern = p,
    option_string_indices = ts\<rparr>"
  define st0 where "st0 = \<lparr>ns = add_defaults main_actions nsp, seen_actions = {},
    positionals = [source_action, optional_destination_action], extras = []\<rparr>"
  have pk: "\<And>n. parse_known_args main_actions n argv =
      (case consume_loop ev (st0\<lparr>ns := add_defaults main_actions n\<rparr>) 0 of
         Inl e \<Rightarrow> Inl e
       | Inr (st1, start_index) \<Rightarrow>
           (case consume_positionals ev st1 start_index of
              Inl e \<Rightarrow> Inl e
            | Inr (st2, stop_index) \<Rightarrow>
                (case finish_actions (seen_actions st2) main_actions (ns st2) [] of
                   Inl e \<Rightarrow> Inl e
                 | Inr (nsp2, required_actions) \<Rightarrow>
                     if required_actions \<noteq> [] then
                       Inl (ExitError (RequiredArguments required_actions))
                     else Inr (nsp2, extras st2 @ drop stop_index argv))))"
    by (simp add: parse_known_args_def cl Let_def ev_def st0_def main_positionals
        cong: sum.case_cong)
  have st0D: "st0\<lparr>ns := add_defaults main_actions nsp\<rparr> = st0"
    by (simp add: st0_def)
  have pka: "\<exists>xs. parse_known_args main_actions nsp argv = Inr (ns1, xs) \<and> xs = []"
  proof (cases "parse_known_args main_actions nsp argv")
    case (Inl e)
    then show ?thesis using assms by (simp add: setup_parser_def parse_args_def)
  next
    case (Inr r)
    obtain n xs where r: "r = (n, xs)" by (cases r)
    then show ?thesis using assms Inr
      by (cases "xs = []") (simp_all add: setup_parser_def parse_args_def)
  qed
  then have pka: "parse_known_args main_actions nsp argv = Inr (ns1, [])" by simp
  obtain st1 i1 where lp: "consume_loop ev st0 0 = Inr (st1, i1)"
  proof (cases "consume_loop ev st0 0")
    case (Inl e)
    then show ?thesis using pka by (simp add: pk st0D)
  next
    case (Inr r)
    then show ?thesis using that by (cases r) simp
  qed
  obtain st2 i2 where ps: "consume_positionals ev st1 i1 = Inr (st2, i2)"
  proof (cases "consume_positionals ev st1 i1")
    case (Inl e)
    then show ?thesis using pka lp by (simp add: pk st0D)
  next
    case (Inr r)
    then show ?thesis using that by (cases r) simp
  qed
  have fin: "(if source_action \<in> seen_actions st2
              then Inr (convert_size (seen_actions st2) (ns st2), extras st2 @ drop i2 argv)
              else Inl (ExitError (RequiredArguments [''source'']))) = Inr (ns1, [])"
    using pka lp ps by (auto simp: pk st0D finish_main_actions split: if_splits)
  have src: "source_action \<in> seen_actions st2"
    using fin by (cases "source_action \<in> seen_actions st2") simp_all
  have ex: "extras st2 @ drop i2 argv = []"
    using fin src by simp
  from consume_loop_param [OF lp] obtain ws1 where ws1:
    "fst ` set ws1 \<subseteq> {a \<in> cands ev st0. action_class a \<noteq> HelpAction}"
    "seen_actions st1 = seen_actions st0 \<union> fst ` set ws1"
    "set (positionals st1) \<subseteq> set (positionals st0)"
    "\<And>n. consume_loop ev (st0\<lparr>ns := n\<rparr>) 0 = Inr (st1\<lparr>ns := apply_writes ws1 n\<rparr>, i1)"
    unfolding param_def by blast
  from consume_positionals_param [OF ps] obtain ws2 where ws2:
    "fst ` set ws2 \<subseteq> {a \<in> cands ev st1. action_class a \<noteq> HelpAction}"
    "seen_actions st2 = seen_actions st1 \<union> fst ` set ws2"
    "\<And>n. consume_positionals ev (st1\<lparr>ns := n\<rparr>) i1 = Inr (st2\<lparr>ns := apply_writes ws2 n\<rparr>, i2)"
    unfolding param_def by blast
  define ws where "ws = ws1 @ ws2"
  have S: "seen_actions st2 = fst ` set ws"
    using ws1(2) ws2(2) by (auto simp: ws_def st0_def)
  have c0: "cands ev st0 = {source_action, optional_destination_action}
      \<union> tuple_actions ev \<union> short_actions ev"
    by (auto simp: cands_def st0_def)
  have "cands ev st0 \<subseteq> set main_actions"
    using tuple_actions_subset [OF cl] short_actions_subset [of ev]
    by (auto simp: cands_def st0_def ev_def main_actions_def)
  moreover have c1: "cands ev st1 \<subseteq> cands ev st0" using ws1(3) by (rule cands_mono)
  ultimately have c01: "cands ev st0 \<subseteq> set main_actions" "cands ev st1 \<subseteq> set main_actions"
    by blast+
  have "fst ` set ws1 \<subseteq> {a \<in> set main_actions. action_class a \<noteq> HelpAction}"
    using ws1(1) c01(1) by blast
  moreover have "fst ` set ws2 \<subseteq> {a \<in> set main_actions. action_class a \<noteq> HelpAction}"
    using ws2(1) c01(2) by blast
  ultimately have S_main: "fst ` set ws \<subseteq> {a \<in> set main_actions. action_class a \<noteq> HelpAction}"
    unfolding ws_def by (simp add: image_Un)
  have "fst ` set ws1 \<subseteq> cands ev st0" using ws1(1) by blast
  moreover have "fst ` set ws2 \<subseteq> cands ev st0" using ws2(1) c1 by blast
  ultimately have S_cands: "fst ` set ws \<subseteq> {source_action, optional_destination_action}
      \<union> tuple_actions ev \<union> short_actions ev"
    unfolding ws_def c0 [symmetric] by (simp add: image_Un)
  have run: "\<And>n. consume_loop ev (st0\<lparr>ns := n\<rparr>) 0 = Inr (st1\<lparr>ns := apply_writes ws1 n\<rparr>, i1)"
    "\<And>n. consume_positionals ev (st1\<lparr>ns := apply_writes ws1 n\<rparr>) i1
       = Inr (st2\<lparr>ns := apply_writes ws n\<rparr>, i2)"
    using ws1(4) ws2(3) by (simp_all add: ws_def apply_writes_append)
  have all: "setup_parser n argv =
       Inr (convert_size (fst ` set ws) (apply_writes ws (add_defaults main_actions n)))" for n
  proof -
    have "parse_known_args main_actions n argv =
       Inr (convert_size (fst ` set ws) (apply_writes ws (add_defaults main_actions n)), [])"
      unfolding pk using run [of "add_defaults main_actions n"] ex src
      by (simp add: finish_main_actions S)
    then show ?thesis by (simp add: setup_parser_def parse_args_def)
  qed
  show ?thesis
  proof (rule that [of p ts ws])
    show "classify main_actions argv = Inr (p, ts)" by (rule cl)
    show "fst ` set ws \<subseteq> {a \<in> set main_actions. action_class a \<noteq> HelpAction}"
      by (rule S_main)
    show "fst ` set ws \<subseteq> {source_action, optional_destination_action}
       \<union> tuple_actions \<lparr>actions = main_actions, arg_strings = argv,
            arg_strings_pattern = p, option_string_indices = ts\<rparr>
       \<union> short_actions \<lparr>actions = main_actions, arg_strings = argv,
            arg_strings_pattern = p, option_string_indices = ts\<rparr>"
      using S_cands unfolding ev_def .
    show "source_action \<in> fst ` set ws" using src S by simp
    show "setup_parser n argv =
       Inr (convert_size (fst ` set ws) (apply_writes ws (add_defaults main_actions n)))" for n
      by (rule all)
  qed
qed

lemma setup_parser_again:
  assumes kD: "map fst (add_defaults main_actions s) = main_keys"
    and ok: "setup_parser s argv = Inr ns1"
  shows "map fst ns1 = main_keys \<and> setup_parser ns1 argv = Inr ns1"
proof -
  obtain ws where
    S_main: "fst ` set ws \<subseteq> {a \<in> set main_actions. action_class a \<noteq> HelpAction}"
    and all: "\<And>n. setup_parser n argv =
       Inr (convert_size (fst ` set ws) (apply_writes ws (add_defaults main_actions n)))"
  proof (rule setup_parser_writes [OF ok])
    fix p ts ws
    assume "fst ` set ws \<subseteq> {a \<in> set main_actions. action_class a \<noteq> HelpAction}"
      and "\<And>n. setup_parser n argv =
       Inr (convert_size (fst ` set ws) (apply_writes ws (add_defaults main_actions n)))"
    then show thesis by (rule that)
  qed
  define D where "D = add_defaults main_actions s"
  define S where "S = fst ` set ws"
  define nA where "nA = apply_writes ws D"
  have ns1: "ns1 = convert_size S nA"
    using all [of s] ok by (simp add: S_def nA_def D_def)
  have S_keys: "dest ` S \<subseteq> set main_keys"
  proof
    fix d assume "d \<in> dest ` S"
    then obtain a where "a \<in> S" "d = dest a" by blast
    then show "d \<in> set main_keys" using S_main main_dest_keys [of a] unfolding S_def by blast
  qed
  have kD': "map fst D = main_keys" unfolding D_def by (rule kD)
  have "fst ` set D = set main_keys" using kD' by (metis list.set_map)
  then have "dest ` fst ` set ws \<subseteq> fst ` set D" using S_keys S_def by simp
  then have kA: "map fst nA = main_keys"
    unfolding nA_def using keys_apply_writes [of ws D] kD' by simp
  have k1: "map fst ns1 = main_keys"
    unfolding ns1 keys_convert_size by (rule kA)
  have dk: "distinct main_keys" by (simp add: main_keys_def)
  have fixed: "apply_writes ws ns1 = ns1"
  proof (rule alist_eq)
    have "fst ` set ns1 = set main_keys" using k1 by (metis list.set_map)
    then have "dest ` fst ` set ws \<subseteq> fst ` set ns1" using S_keys S_def by simp
    then show keys: "map fst (apply_writes ws ns1) = map fst ns1"
      by (rule keys_apply_writes)
    show "distinct (map fst (apply_writes ws ns1))"
      unfolding keys k1 by (rule dk)
    show "map_of (apply_writes ws ns1) = map_of ns1"
    proof
      fix d
      show "map_of (apply_writes ws ns1) d = map_of ns1 d"
      proof (cases "map_of (write_list ws) d")
        case None
        then show ?thesis by (simp add: map_of_apply_writes map_add_def)
      next
        case (Some v)
        then have "d \<in> dest ` S" using dom_write_list [of ws] unfolding S_def by blast
        then obtain a where a: "a \<in> S" "dest a = d" by blast
        have "a \<in> set main_actions" using a(1) S_main unfolding S_def by blast
        then have "d = ''size'' \<Longrightarrow> a = size_action"
          using a(2) by (simp add: main_dest_size)
        then have "d = ''size'' \<Longrightarrow> size_action \<in> S"
          using a(1) by blast
        then have "map_of ns1 d = map_of nA d"
          unfolding ns1 map_of_convert_size by auto
        also have "\<dots> = Some v"
          unfolding nA_def by (simp add: map_of_apply_writes map_add_def Some)
        finally show ?thesis by (simp add: map_of_apply_writes map_add_def Some)
      qed
    qed
  qed
  have "add_defaults main_actions ns1 = ns1" using k1 by (rule add_defaults_present)
  moreover have "convert_size S ns1 = ns1"
    unfolding ns1 by (rule convert_size_idem)
  ultimately have "setup_parser ns1 argv = Inr ns1"
    using all [of ns1] by (simp add: fixed S_def)
  then show ?thesis using k1 by simp
qed

lemma setup_parser_agree:
  assumes ok: "setup_parser s argv = Inr ns1"
  shows "\<exists>ns2. setup_parser s' argv = Inr ns2
    \<and> (\<forall>d. map_of (add_defaults main_actions s') d = map_of (add_defaults main_actions s) d
           \<longrightarrow> map_of ns2 d = map_of ns1 d)"
proof -
  obtain ws where
    S_main: "fst ` set ws \<subseteq> {a \<in> set main_actions. action_class a \<noteq> HelpAction}"
    and all: "\<And>n. setup_parser n argv =
       Inr (convert_size (fst ` set ws) (apply_writes ws (add_defaults main_actions n)))"
  proof (rule setup_parser_writes [OF ok])
    fix p ts ws
    assume "fst ` set ws \<subseteq> {a \<in> set main_actions. action_class a \<noteq> HelpAction}"
      and "\<And>n. setup_parser n argv =
       Inr (convert_size (fst ` set ws) (apply_writes ws (add_defaults main_actions n)))"
    then show thesis by (rule that)
  qed
  define S where "S = fst ` set ws"
  define D where "D = add_defaults main_actions s"
  define D' where "D' = add_defaults main_actions s'"
  have ns1: "ns1 = convert_size S (apply_writes ws D)"
    using all [of s] ok by (simp add: S_def D_def)
  have written: "map_of (convert_size S (apply_writes ws n)) d = Some v"
    if w: "map_of (write_list ws) d = Some v" for n d v
  proof -
    from w have "d \<in> dest ` S" using dom_write_list [of ws] unfolding S_def by blast
    then obtain a where a: "a \<in> S" "dest a = d" by blast
    have "a \<in> set main_actions" using a(1) S_main unfolding S_def by blast
    then have "d = ''size'' \<Longrightarrow> a = size_action"
      using a(2) by (simp add: main_dest_size)
    then have "d = ''size'' \<Longrightarrow> size_action \<in> S" using a(1) by blast
    then have "map_of (convert_size S (apply_writes ws n)) d = map_of (apply_writes ws n) d"
      unfolding map_of_convert_size by auto
    also have "\<dots> = Some v" by (simp add: map_of_apply_writes map_add_def w)
    finally show ?thesis .
  qed
  have unwritten: "map_of (convert_size S (apply_writes ws n)) d =
      (if d = ''size'' \<and> size_action \<notin> S \<and> map_of n ''size'' = Some (VStr ''1MB'')
       then Some (VInt 1048576) else map_of n d)"
    if w: "map_of (write_list ws) d = None" for n d
  proof (cases "d = ''size''")
    case True
    then show ?thesis using w
      by (simp add: map_of_convert_size map_of_apply_writes map_add_def)
  next
    case False
    then show ?thesis using w
      by (simp add: map_of_convert_size map_of_apply_writes map_add_def)
  qed
  have "map_of (convert_size S (apply_writes ws D')) d = map_of ns1 d"
    if eq: "map_of D' d = map_of D d" for d
  proof (cases "map_of (write_list ws) d")
    case None
    show ?thesis
      unfolding ns1 unwritten [OF None] using eq by auto
  next
    case (Some v)
    show ?thesis unfolding ns1 written [OF Some] ..
  qed
  then show ?thesis
    using all [of s'] by (simp add: S_def D_def D'_def)
qed

lemma class_state_keys:
  "class_state s \<Longrightarrow> map fst (add_defaults main_actions s) = main_keys"
proof (induction rule: class_state.induct)
  case fresh
  then show ?case by (simp add: FileProcessorNamespace_def keys_main_defaults)
next
  case (parsed s argv s')
  then have "map fst s' = main_keys" using setup_parser_again by blast
  then show ?case by (simp add: add_defaults_present)
qed

text \<open>
  The result of a parse depends on the state of the class: the attributes that an
  earlier parse has set take the place of the defaults. A command line without
  \<open>--size\<close> gives the size 1048576 on the fresh class and 512000 after a parse of
  \<open>--size 500KB\<close>.
\<close>

theorem parse_depends_on_class:
  "setup_parser FileProcessorNamespace [''src''] =
     Inr [(''source'', VStr ''src''), (''optional_destination'', VStr ''default_value''),
          (''files'', VList []), (''required_files'', VNone),
          (''verbose'', VBool False), (''mode'', VStr ''auto''), (''size'', VInt 1048576)]
   \<and> setup_parser FileProcessorNamespace [''src'', ''--size'', ''500KB''] =
     Inr [(''source'', VStr ''src''), (''optional_destination'', VStr ''default_value''),
          (''files'', VList []), (''required_files'', VNone),
          (''verbose'', VBool False), (''mode'', VStr ''auto''), (''size'', VInt 512000)]
   \<and> setup_parser
       [(''source'', VStr ''src''), (''optional_destination'', VStr ''default_value''),
        (''files'', VList []), (''required_files'', VNone),
        (''verbose'', VBool False), (''mode'', VStr ''auto''), (''size'', VInt 512000)]
       [''src''] =
     Inr [(''source'', VStr ''src''), (''optional_destination'', VStr ''default_value''),
          (''files'', VList []), (''required_files'', VNone),
          (''verbose'', VBool False), (''mode'', VStr ''auto''), (''size'', VInt 512000)]"
  by code_simp

text \<open>
  C8. The parse is a function of the command line and of the state of the class
  that \<open>setup_parser\<close> passes as namespace; it is not a function of the command line
  alone. What holds for every state \<open>s\<close> of the class and every command line that
  is parsed with success from \<open>s\<close>:

  \<^item> parsing the same command line again, on the class as this parse left it,
    returns the same namespace (idempotence);
  \<^item> from every other namespace \<open>s'\<close> the command line is parsed with success too,
    and the two results agree on every attribute on which \<open>s\<close> and \<open>s'\<close> agree once
    the defaults are added: two parses of one command line differ only where the
    states of the class differ.
\<close>

theorem parse_idempotent:
  assumes "class_state s" and "setup_parser s argv = Inr ns1"
  shows "setup_parser ns1 argv = Inr ns1
    \<and> (\<forall>s'. \<exists>ns2. setup_parser s' argv = Inr ns2
          \<and> (\<forall>d. map_of (add_defaults main_actions s') d = map_of (add_defaults main_actions s) d
                \<longrightarrow> map_of ns2 d = map_of ns1 d))"
proof
  have "map fst (add_defaults main_actions s) = main_keys"
    using assms(1) by (rule class_state_keys)
  then show "setup_parser ns1 argv = Inr ns1"
    using assms(2) setup_parser_again by blast
  show "\<forall>s'. \<exists>ns2. setup_parser s' argv = Inr ns2
      \<and> (\<forall>d. map_of (add_defaults main_actions s') d = map_of (add_defaults main_actions s) d
            \<longrightarrow> map_of ns2 d = map_of ns1 d)"
    using setup_parser_agree [OF assms(2)] by blast
qed

theorem parse_idempotent_witness:
  "class_state
     [(''source'', VStr ''src''), (''optional_destination'', VStr ''default_value''),
      (''files'', VList []), (''required_files'', VNone),
      (''verbose'', VBool False), (''mode'', VStr ''auto''), (''size'', VInt 512000)]
   \<and> setup_parser
     [(''source'', VStr ''src''), (''optional_destination'', VStr ''default_value''),
      (''files'', VList []), (''required_files'', VNone),
      (''verbose'', VBool False), (''mode'', VStr ''auto''), (''size'', VInt 512000)]
     [''src'', ''--mode'', ''auto'', ''--files'', ''a'', ''b'', ''-vm'', ''manual''] =
   Inr [(''source'', VStr ''src''), (''optional_destination'', VStr ''default_value''),
        (''files'', VList [VStr ''a'', VStr ''b'']), (''required_files'', VNone),
        (''verbose'', VBool True), (''mode'', VStr ''manual''), (''size'', VInt 512000)]
   \<and> setup_parser
     [(''source'', VStr ''src''), (''optional_destination'', VStr ''default_value''),
      (''files'', VList [VStr ''a'', VStr ''b'']), (''required_files'', VNone),
      (''verbose'', VBool True), (''mode'', VStr ''manual''), (''size'', VInt 512000)]
     [''src'', ''--mode'', ''auto'', ''--files'', ''a'', ''b'', ''-vm'', ''manual''] =
   Inr [(''source'', VStr ''src''), (''optional_destination'', VStr ''default_value''),
        (''files'', VList [VStr ''a'', VStr ''b'']), (''required_files'', VNone),
        (''verbose'', VBool True), (''mode'', VStr ''manual''), (''size'', VInt 512000)]
   \<and> map_of (add_defaults main_actions FileProcessorNamespace) ''optional_destination'' =
     map_of (add_defaults main_actions
       [(''source'', VStr ''src''), (''optional_destination'', VStr ''default_value''),
        (''files'', VList []), (''required_files'', VNone),
        (''verbose'', VBool False), (''mode'', VStr ''auto''), (''size'', VInt 512000)])
       ''optional_destination''
   \<and> (\<exists>ns2. setup_parser FileProcessorNamespace
        [''src'', ''--mode'', ''auto'', ''--files'', ''a'', ''b'', ''-vm'', ''manual''] = Inr ns2
       \<and> map_of ns2 ''optional_destination'' = Some (VStr ''default_value''))"
proof -
  define s0 where "s0 =
     [(''source'', VStr ''src''), (''optional_destination'', VStr ''default_value''),
      (''files'', VList []), (''required_files'', VNone),
      (''verbose'', VBool False), (''mode'', VStr ''auto''), (''size'', VInt 512000)]"
  define s1 where "s1 =
     [(''source'', VStr ''src''), (''optional_destination'', VStr ''default_value''),
      (''files'', VList [VStr ''a'', VStr ''b'']), (''required_files'', VNone),
      (''verbose'', VBool True), (''mode'', VStr ''manual''), (''size'', VInt 512000)]"
  have e0: "setup_parser FileProcessorNamespace [''src'', ''--size'', ''500KB''] = Inr s0"
    unfolding s0_def by code_simp
  have st: "class_state s0"
    using class_state.fresh e0 by (rule class_state.parsed)
  have e1: "setup_parser s0
     [''src'', ''--mode'', ''auto'', ''--files'', ''a'', ''b'', ''-vm'', ''manual''] = Inr s1"
    unfolding s0_def s1_def by code_simp
  have d: "map_of (add_defaults main_actions FileProcessorNamespace) ''optional_destination'' =
     map_of (add_defaults main_actions s0) ''optional_destination''"
    unfolding s0_def by code_simp
  have v: "map_of s1 ''optional_destination'' = Some (VStr ''default_value'')"
    unfolding s1_def by simp
  from parse_idempotent [OF st e1] have again: "setup_parser s1
     [''src'', ''--mode'', ''auto'', ''--files'', ''a'', ''b'', ''-vm'', ''manual''] = Inr s1"
    and other: "\<exists>ns2. setup_parser FileProcessorNamespace
        [''src'', ''--mode'', ''auto'', ''--files'', ''a'', ''b'', ''-vm'', ''manual''] = Inr ns2
      \<and> (\<forall>d. map_of (add_defaults main_actions FileProcessorNamespace) d =
               map_of (add_defaults main_actions s0) d
            \<longrightarrow> map_of ns2 d = map_of s1 d)"
    by blast+
  from other d v have "\<exists>ns2. setup_parser FileProcessorNamespace
        [''src'', ''--mode'', ''auto'', ''--files'', ''a'', ''b'', ''-vm'', ''manual''] = Inr ns2
       \<and> map_of ns2 ''optional_destination'' = Some (VStr ''default_value'')"
    by metis
  with st e1 again d show ?thesis unfolding s0_def s1_def by blast
qed

section \<open>The option \<open>--required-files\<close>\<close>

lemma main_dest_required:
  "a \<in> set main_actions \<Longrightarrow> dest a = ''required_files'' \<Longrightarrow> a = required_files_action"
  by (auto simp: main_actions_def)

lemma required_option_string:
  "(os, required_files_action) \<in> set (option_string_actions main_actions) \<Longrightarrow>
   os = ''--required-files''"
  by (auto simp: main_option_strings)

lemma get_option_tuples_long:
  assumes "(ao, os, sep, ex) \<in> set (get_option_tuples acts (c0 # CHR ''-'' # rest))"
  shows "startswith os (takeWhile (\<lambda>c. c \<noteq> CHR ''='') (c0 # CHR ''-'' # rest))"
proof -
  obtain pre found post where pt: "partition_eq (c0 # CHR ''-'' # rest) = (pre, found, post)"
    by (cases "partition_eq (c0 # CHR ''-'' # rest)")
  then have pre: "pre = takeWhile (\<lambda>c. c \<noteq> CHR ''='') (c0 # CHR ''-'' # rest)"
    by (simp add: partition_eq_def)
  have "get_option_tuples acts (c0 # CHR ''-'' # rest) =
     map (\<lambda>(s, a). (Some a, s, (if found then Some ''='' else None),
                                 (if found then Some post else None)))
         (filter (\<lambda>(s, a). startswith s pre) (option_string_actions acts))"
    unfolding get_option_tuples_def list.case pt by simp
  with assms have "startswith os pre" by auto
  then show ?thesis unfolding pre .
qed

lemma get_option_tuples_short:
  assumes "(ao, os, sep, ex) \<in> set (get_option_tuples acts (c0 # c1 # rest))"
    and "c1 \<noteq> CHR ''-''"
  shows "os = [c0, c1] \<or> startswith os (c0 # c1 # rest)"
proof -
  have "get_option_tuples acts (c0 # c1 # rest) =
     concat (map (\<lambda>(s, a).
                   if s = [c0, c1] then [(Some a, s, Some [], Some rest)]
                   else if startswith s (c0 # c1 # rest) then [(Some a, s, None, None)]
                   else [])
                (option_string_actions acts))"
    unfolding get_option_tuples_def list.case using assms(2) by simp
  with assms(1) show ?thesis by (auto split: if_splits)
qed

lemma long_prefix_ambiguous:
  assumes "takeWhile (\<lambda>c. c \<noteq> CHR ''='') rest = []"
  shows "length (get_option_tuples main_actions (CHR ''-'' # CHR ''-'' # rest)) = 6"
proof -
  obtain pre found post where
    pt: "partition_eq (CHR ''-'' # CHR ''-'' # rest) = (pre, found, post)"
    by (cases "partition_eq (CHR ''-'' # CHR ''-'' # rest)")
  then have pre: "pre = ''--''"
    using assms by (simp add: partition_eq_def)
  have "get_option_tuples main_actions (CHR ''-'' # CHR ''-'' # rest) =
     map (\<lambda>(s, a). (Some a, s, (if found then Some ''='' else None),
                                 (if found then Some post else None)))
         (filter (\<lambda>(s, a). startswith s pre) (option_string_actions main_actions))"
    unfolding get_option_tuples_def list.case pt by simp
  then have "length (get_option_tuples main_actions (CHR ''-'' # CHR ''-'' # rest)) =
     length (filter (\<lambda>(s, a). startswith s ''--'') (option_string_actions main_actions))"
    unfolding pre by simp
  also have "\<dots> = 6"
    unfolding main_option_strings by (simp add: startswith_def)
  finally show ?thesis .
qed


text \<open>An argument string that stands for the option \<open>--required-files\<close> begins with
  \<open>--r\<close>.\<close>

lemma required_files_token:
  assumes "parse_optional main_actions s = Inr (Some (Some required_files_action, os, sep, ex))"
  shows "take 3 s = ''--r''"
proof -
  from parse_optional_cases [OF assms] have mem: "(os, required_files_action)
      \<in> set (option_string_actions main_actions)"
    and cs: "os = s \<or> os = takeWhile (\<lambda>c. c \<noteq> CHR ''='') s
      \<or> get_option_tuples main_actions s = [(Some required_files_action, os, sep, ex)]"
    by blast+
  have os: "os = ''--required-files''" using mem by (rule required_option_string)
  from cs show ?thesis
  proof (elim disjE)
    assume "os = s"
    then have "s = ''--required-files''" using os by simp
    then show ?thesis by simp
  next
    assume "os = takeWhile (\<lambda>c. c \<noteq> CHR ''='') s"
    then have "s = ''--required-files'' @ dropWhile (\<lambda>c. c \<noteq> CHR ''='') s"
      using os by (metis takeWhile_dropWhile_id)
    then have "take 3 s = take 3 (''--required-files'' @ dropWhile (\<lambda>c. c \<noteq> CHR ''='') s)"
      by simp
    then show ?thesis by simp
  next
    assume g: "get_option_tuples main_actions s = [(Some required_files_action, os, sep, ex)]"
    then have mem: "(Some required_files_action, os, sep, ex)
        \<in> set (get_option_tuples main_actions s)" by simp
    have len: "length (get_option_tuples main_actions s) = 1" using g by simp
    obtain c0 c1 rest where s: "s = c0 # c1 # rest"
    proof (cases s)
      case Nil
      then show ?thesis using g by (simp add: get_option_tuples_def)
    next
      case (Cons c0 r)
      then show ?thesis using g that by (cases r) (simp_all add: get_option_tuples_def)
    qed
    have "s \<noteq> []" "hd s = CHR ''-''"
      using assms by (auto simp: parse_optional_def split: if_splits)
    then have c0: "c0 = CHR ''-''" using s by simp
    show ?thesis
    proof (cases "c1 = CHR ''-''")
      case True
      have sw: "startswith ''--required-files'' (takeWhile (\<lambda>c. c \<noteq> CHR ''='') s)"
        using get_option_tuples_long [of "Some required_files_action" os sep ex main_actions c0 rest]
          mem s True os by simp
      show ?thesis
      proof (cases "takeWhile (\<lambda>c. c \<noteq> CHR ''='') rest")
        case Nil
        from long_prefix_ambiguous [OF Nil] len s c0 True show ?thesis by simp
      next
        case (Cons r0 rs)
        then have tw: "takeWhile (\<lambda>c. c \<noteq> CHR ''='') s = CHR ''-'' # CHR ''-'' # r0 # rs"
          using s c0 True by simp
        have r0: "r0 = CHR ''r''"
          using sw unfolding tw by (simp add: startswith_def)
        obtain x xs where rest: "rest = x # xs" using Cons by (cases rest) auto
        then have "x = r0" using Cons by (auto split: if_splits)
        then show ?thesis using s c0 True rest r0 by simp
      qed
    next
      case False
      have "os = [c0, c1] \<or> startswith os (c0 # c1 # rest)"
        using get_option_tuples_short [of "Some required_files_action" os sep ex main_actions
            c0 c1 rest] mem s False by simp
      then show ?thesis using os False by (auto simp: startswith_def)
    qed
  qed
qed

lemma required_not_short: "required_files_action \<notin> short_actions
  \<lparr>actions = main_actions, arg_strings = args, arg_strings_pattern = p,
   option_string_indices = ts\<rparr>"
proof
  assume "required_files_action \<in> short_actions
    \<lparr>actions = main_actions, arg_strings = args, arg_strings_pattern = p,
     option_string_indices = ts\<rparr>"
  then obtain c0 c1 where
    "map_of (option_string_actions main_actions) [c0, c1] = Some required_files_action"
    by (auto simp: short_actions_def)
  then have "([c0, c1], required_files_action) \<in> set (option_string_actions main_actions)"
    by (rule map_of_SomeD)
  then have "[c0, c1] = ''--required-files''" by (rule required_option_string)
  then show False by simp
qed


text \<open>A parse that succeeds although no argument string stands for the option leaves the
  attribute at its default, \<open>None\<close>.\<close>

lemma required_files_absent:
  assumes ok: "setup_parser FileProcessorNamespace argv = Inr ns1"
    and no: "\<And>t os sep ex. t \<in> set argv \<Longrightarrow>
      parse_optional main_actions t \<noteq> Inr (Some (Some required_files_action, os, sep, ex))"
  shows "map_of ns1 ''required_files'' = Some VNone"
proof -
  obtain p ts ws where
    cl: "classify main_actions argv = Inr (p, ts)"
    and S_main: "fst ` set ws \<subseteq> {a \<in> set main_actions. action_class a \<noteq> HelpAction}"
    and S_cands: "fst ` set ws \<subseteq> {source_action, optional_destination_action}
       \<union> tuple_actions \<lparr>actions = main_actions, arg_strings = argv,
            arg_strings_pattern = p, option_string_indices = ts\<rparr>
       \<union> short_actions \<lparr>actions = main_actions, arg_strings = argv,
            arg_strings_pattern = p, option_string_indices = ts\<rparr>"
    and all: "\<And>n. setup_parser n argv =
       Inr (convert_size (fst ` set ws) (apply_writes ws (add_defaults main_actions n)))"
  proof (rule setup_parser_writes [OF ok])
    fix p ts ws
    assume "classify main_actions argv = Inr (p, ts)"
      and "fst ` set ws \<subseteq> {a \<in> set main_actions. action_class a \<noteq> HelpAction}"
      and "fst ` set ws \<subseteq> {source_action, optional_destination_action}
       \<union> tuple_actions \<lparr>actions = main_actions, arg_strings = argv,
            arg_strings_pattern = p, option_string_indices = ts\<rparr>
       \<union> short_actions \<lparr>actions = main_actions, arg_strings = argv,
            arg_strings_pattern = p, option_string_indices = ts\<rparr>"
      and "\<And>n. setup_parser n argv =
       Inr (convert_size (fst ` set ws) (apply_writes ws (add_defaults main_actions n)))"
    then show thesis by (rule that)
  qed
  define ev where "ev = \<lparr>actions = main_actions, arg_strings = argv,
    arg_strings_pattern = p, option_string_indices = ts\<rparr>"
  have notin: "required_files_action \<notin> fst ` set ws"
  proof
    assume "required_files_action \<in> fst ` set ws"
    then have "required_files_action \<in> {source_action, optional_destination_action}
       \<union> tuple_actions ev \<union> short_actions ev"
      using S_cands unfolding ev_def by blast
    moreover have "required_files_action \<notin> short_actions ev"
      unfolding ev_def by (rule required_not_short)
    moreover have "required_files_action \<notin> {source_action, optional_destination_action}"
      by simp
    ultimately have "required_files_action \<in> tuple_actions ev" by blast
    then obtain os sep ex where "Some (Some required_files_action, os, sep, ex) \<in> set ts"
      by (auto simp: tuple_actions_def ev_def)
    from classify_tuples [OF cl this] obtain s where "s \<in> set argv"
      "parse_optional main_actions s = Inr (Some (Some required_files_action, os, sep, ex))"
      by blast
    then show False using no by blast
  qed
  have "''required_files'' \<notin> dest ` fst ` set ws"
  proof
    assume "''required_files'' \<in> dest ` fst ` set ws"
    then obtain a where a: "a \<in> fst ` set ws" "dest a = ''required_files''" by force
    then have "a \<in> set main_actions" using S_main by blast
    then have "a = required_files_action" using a(2) by (rule main_dest_required)
    then show False using a(1) notin by simp
  qed
  then have none: "map_of (write_list ws) ''required_files'' = None"
    using dom_write_list [of ws] by blast
  have "ns1 = convert_size (fst ` set ws) (apply_writes ws (add_defaults main_actions []))"
    using all [of FileProcessorNamespace] ok by (simp add: FileProcessorNamespace_def)
  then have "map_of ns1 ''required_files'' =
      map_of (apply_writes ws (add_defaults main_actions [])) ''required_files''"
    by (simp add: map_of_convert_size)
  also have "\<dots> = map_of (add_defaults main_actions []) ''required_files''"
    by (simp add: map_of_apply_writes map_add_def none)
  also have "\<dots> = Some VNone" by (simp add: main_defaults)
  finally show ?thesis .
qed


subsection \<open>How far an action can reach\<close>

text \<open>A match never extends over a character that the expression cannot match. The
  expressions of the actions are made of \<open>A\<close> and \<open>-\<close>, so neither the positionals nor
  the arguments of an option reach over the next \<open>O\<close> of the pattern.\<close>

lemma rx_within_simps [simp]:
  "rx_within C (Lit c) = (c \<in> C)" "rx_within C (Opt c) = (c \<in> C)"
  "rx_within C (Star cs) = (set cs \<subseteq> C)"
  by (simp_all add: rx_within_def)

lemma rx_match_bound:
  "rx_match n r gs s = Some lens \<Longrightarrow> \<forall>x\<in>set r. rx_within C x \<Longrightarrow>
   \<forall>g\<in>set gs. \<forall>x\<in>set g. rx_within C x \<Longrightarrow>
   sum_list lens \<le> n + length (takeWhile (\<lambda>c. c \<in> C) s)"
proof (induction n r gs s arbitrary: lens rule: rx_match.induct)
  case (1 n s)
  then show ?case by auto
next
  case (2 n g gs s)
  from "2.prems"(1) obtain l where l: "rx_match 0 g gs s = Some l" "lens = n # l"
    by auto
  have "sum_list l \<le> 0 + length (takeWhile (\<lambda>c. c \<in> C) s)"
    using "2.prems"(3) by (intro "2.IH" [OF l(1)]) simp_all
  then show ?case using l(2) by simp
next
  case (3 n c r gs)
  then show ?case by simp
next
  case (4 n c r gs x xs)
  from "4.prems"(1) have x: "x = c" and m: "rx_match (Suc n) r gs xs = Some lens"
    by (simp_all split: if_splits)
  have "sum_list lens \<le> Suc n + length (takeWhile (\<lambda>c. c \<in> C) xs)"
    using "4.prems"(2,3) by (intro "4.IH" [OF x m]) simp_all
  moreover have "x \<in> C" using x "4.prems"(2) by simp
  ultimately show ?case by simp
next
  case (5 n c r gs)
  from "5.prems"(1) have m: "rx_match n r gs [] = Some lens" by simp
  show ?case using "5.prems"(2,3) by (intro "5.IH" [OF m]) simp_all
next
  case (6 n c r gs x xs)
  show ?case
  proof (cases "x = c")
    case True
    then have xC: "x \<in> C" using "6.prems"(2) by simp
    show ?thesis
    proof (cases "rx_match (Suc n) r gs xs")
      case (Some res)
      then have "res = lens" using "6.prems"(1) True by simp
      then have m: "rx_match (Suc n) r gs xs = Some lens" using Some by simp
      have "sum_list lens \<le> Suc n + length (takeWhile (\<lambda>c. c \<in> C) xs)"
        using "6.prems"(2,3) by (intro "6.IH"(1) [OF True m]) simp_all
      then show ?thesis using xC by simp
    next
      case None
      then have m: "rx_match n r gs (x # xs) = Some lens" using "6.prems"(1) True by simp
      show ?thesis using "6.prems"(2,3) by (intro "6.IH"(2) [OF True None m]) simp_all
    qed
  next
    case False
    then have m: "rx_match n r gs (x # xs) = Some lens" using "6.prems"(1) by simp
    show ?thesis using "6.prems"(2,3) by (intro "6.IH"(3) [OF False m]) simp_all
  qed
next
  case (7 n cs r gs)
  from "7.prems"(1) have m: "rx_match n r gs [] = Some lens" by simp
  show ?case using "7.prems"(2,3) by (intro "7.IH" [OF m]) simp_all
next
  case (8 n cs r gs x xs)
  show ?case
  proof (cases "x \<in> set cs")
    case True
    then have xC: "x \<in> C" using "8.prems"(2) by auto
    show ?thesis
    proof (cases "rx_match (Suc n) (Star cs # r) gs xs")
      case (Some res)
      then have "res = lens" using "8.prems"(1) True by simp
      then have m: "rx_match (Suc n) (Star cs # r) gs xs = Some lens" using Some by simp
      have "sum_list lens \<le> Suc n + length (takeWhile (\<lambda>c. c \<in> C) xs)"
        using "8.prems"(2,3) by (intro "8.IH"(1) [OF True m]) simp_all
      then show ?thesis using xC by simp
    next
      case None
      then have m: "rx_match n r gs (x # xs) = Some lens" using "8.prems"(1) True by simp
      show ?thesis using "8.prems"(2,3) by (intro "8.IH"(2) [OF True None m]) simp_all
    qed
  next
    case False
    then have m: "rx_match n r gs (x # xs) = Some lens" using "8.prems"(1) by simp
    show ?thesis using "8.prems"(2,3) by (intro "8.IH"(3) [OF False m]) simp_all
  qed
qed

lemma count_pattern_within:
  "\<forall>x\<in>set (count_pattern n). rx_within {c. argument_char c} x"
  by (cases n) (auto simp: argument_char_def)

lemma strip_dashes_within:
  "\<forall>x\<in>set p. rx_within C x \<Longrightarrow> \<forall>x\<in>set (strip_dashes p). rx_within C x"
  by (auto simp: strip_dashes_def rx_within_def split: rx.splits)

lemma nargs_pattern_within:
  "\<forall>x\<in>set (get_nargs_pattern a). rx_within {c. argument_char c} x"
proof -
  have "\<forall>x\<in>set (case nargs a of
                 NargsNone \<Rightarrow> [Star ''-'', Lit CHR ''A'', Star ''-'']
               | NargsOptional \<Rightarrow> [Star ''-'', Opt CHR ''A'', Star ''-'']
               | NargsZeroOrMore \<Rightarrow> [Star ''-'', Star ''A-'']
               | NargsOneOrMore \<Rightarrow> [Star ''-'', Lit CHR ''A'', Star ''A-'']
               | NargsCount n \<Rightarrow> count_pattern n). rx_within {c. argument_char c} x"
    using count_pattern_within by (cases "nargs a") (simp_all add: argument_char_def)
  then show ?thesis
    unfolding get_nargs_pattern_def Let_def
    by (simp add: strip_dashes_within)
qed

lemma takeWhile_bound:
  assumes "i \<le> k" "k < length p" "\<not> P (p ! k)"
  shows "length (takeWhile P (drop i p)) \<le> k - i"
proof (rule ccontr)
  assume "\<not> length (takeWhile P (drop i p)) \<le> k - i"
  then have lt: "k - i < length (takeWhile P (drop i p))" by simp
  then have "takeWhile P (drop i p) ! (k - i) = drop i p ! (k - i)"
    by (rule takeWhile_nth)
  also have "\<dots> = p ! k" using assms(1,2) by simp
  finally have "p ! k \<in> set (takeWhile P (drop i p))"
    using lt by (metis nth_mem)
  then have "P (p ! k)" by (rule set_takeWhileD [THEN conjunct2])
  then show False using assms(3) by simp
qed

lemma match_argument_bound:
  assumes "match_argument a p = Inr n"
  shows "n \<le> length (takeWhile argument_char p)"
proof (cases "rx_match 0 (get_nargs_pattern a) [] p")
  case None
  then show ?thesis using assms by (simp add: match_argument_def)
next
  case (Some lens)
  have "sum_list lens \<le> 0 + length (takeWhile (\<lambda>c. c \<in> {c. argument_char c}) p)"
    using nargs_pattern_within by (intro rx_match_bound [OF Some]) simp_all
  moreover have "n \<le> sum_list lens"
    using assms Some by (cases lens) (auto simp: match_argument_def)
  ultimately show ?thesis by simp
qed

lemma match_slices_bound:
  "sum_list (match_slices k acts p) \<le> length (takeWhile argument_char p)"
proof (induction k)
  case 0
  then show ?case by simp
next
  case (Suc i)
  show ?case
  proof (cases "map get_nargs_pattern (take (Suc i) acts)")
    case Nil
    then show ?thesis using Suc by simp
  next
    case (Cons g gs)
    have within: "\<forall>g'\<in>set (g # gs). \<forall>x\<in>set g'. rx_within {c. argument_char c} x"
      unfolding Cons [symmetric] using nargs_pattern_within by auto
    show ?thesis
    proof (cases "rx_match 0 g gs p")
      case None
      then show ?thesis using Suc Cons by simp
    next
      case (Some lens)
      have "sum_list lens \<le> 0 + length (takeWhile (\<lambda>c. c \<in> {c. argument_char c}) p)"
        using within by (intro rx_match_bound [OF Some]) simp_all
      then show ?thesis using Some Cons by simp
    qed
  qed
qed

lemma take_positionals_stop:
  "take_positionals args st i zs = Inr (st', j) \<Longrightarrow> j = i + sum_list (map snd zs)"
proof (induction zs arbitrary: st i)
  case Nil
  then show ?case by simp
next
  case (Cons z zs)
  obtain a n where z: "z = (a, n)" by (cases z)
  from Cons.prems z obtain st1 where "take_positionals args st1 (i + n) zs = Inr (st', j)"
    by (auto split: sum.splits)
  then have "j = i + n + sum_list (map snd zs)" by (rule Cons.IH)
  then show ?case using z by simp
qed

lemma sum_zip_le: "sum_list (map snd (zip xs cs)) \<le> sum_list (cs :: nat list)"
proof (induction cs arbitrary: xs)
  case Nil
  then show ?case by simp
next
  case (Cons c cs)
  show ?case
  proof (cases xs)
    case Nil
    then show ?thesis by simp
  next
    case (Cons x xs')
    then show ?thesis using Cons.IH [of xs'] by simp
  qed
qed

lemma consume_positionals_stop:
  assumes "consume_positionals ev st i = Inr (st', j)"
  shows "j \<le> i + length (takeWhile argument_char (drop i (arg_strings_pattern ev)))"
proof -
  define cs where "cs = match_arguments_partial (positionals st) (drop i (arg_strings_pattern ev))"
  from assms obtain st1 where
    "take_positionals (arg_strings ev) st i (zip (positionals st) cs) = Inr (st1, j)"
    by (auto simp: consume_positionals_def Let_def cs_def split: sum.splits)
  then have "j = i + sum_list (map snd (zip (positionals st) cs))"
    by (rule take_positionals_stop)
  moreover have "sum_list (map snd (zip (positionals st) cs)) \<le> sum_list cs"
    by (rule sum_zip_le)
  moreover have "sum_list cs \<le> length (takeWhile argument_char (drop i (arg_strings_pattern ev)))"
    unfolding cs_def match_arguments_partial_def by (rule match_slices_bound)
  ultimately show ?thesis by simp
qed

lemma explicit_loop_stop:
  "explicit_loop ev i acc a os sep ex = Inr (ts, xs, j) \<Longrightarrow>
   j \<le> i + 1 + length (takeWhile argument_char (drop (i + 1) (arg_strings_pattern ev)))"
proof (induction ev i acc a os sep ex rule: explicit_loop.induct)
  case (1 ev start_index acc a option_string sep)
  then obtain n where "match_argument a (drop (start_index + 1) (arg_strings_pattern ev)) = Inr n"
    and "j = start_index + 1 + n"
    by (auto split: sum.splits)
  then show ?case using match_argument_bound [of a "drop (start_index + 1) (arg_strings_pattern ev)" n]
    by simp
next
  case (2 ev start_index acc a option_string sep explicit_arg)
  show ?case
  proof (cases "match_argument a ''A''")
    case (Inl e)
    then show ?thesis using "2.prems" by simp
  next
    case (Inr arg_count)
    show ?thesis
    proof (cases option_string)
      case Nil
      then show ?thesis using "2.prems" Inr by simp
    next
      case (Cons c0 r)
      show ?thesis
      proof (cases r)
        case Nil
        then show ?thesis using "2.prems" Inr Cons by simp
      next
        case (Cons c1 r')
        note os = \<open>option_string = c0 # r\<close> Cons
        show ?thesis
        proof (cases "arg_count = 0 \<and> c1 \<noteq> CHR ''-'' \<and> explicit_arg \<noteq> []")
          case False
          then show ?thesis using "2.prems" Inr os by (auto split: if_splits)
        next
          case True
          show ?thesis
          proof (cases "(sep \<noteq> None \<and> sep \<noteq> Some []) \<or> hd explicit_arg = CHR ''-''")
            case t: True
            then show ?thesis using "2.prems" Inr os True by auto
          next
            case f: False
            show ?thesis
            proof (cases "map_of (option_string_actions (actions ev)) [c0, hd explicit_arg]")
              case None
              then show ?thesis using "2.prems" Inr os True f by auto
            next
              case (Some a')
              show ?thesis
                using "2.prems" "2.IH" [OF Inr os(1) os(2) True f refl Some refl]
                  Inr os True f Some
                by (auto simp: Let_def split: if_splits)
            qed
          qed
        qed
      qed
    qed
  qed
qed

lemma consume_optional_stop:
  assumes "consume_optional ev st i = Inr (st', j)"
  shows "j \<le> i + 1 + length (takeWhile argument_char (drop (i + 1) (arg_strings_pattern ev)))"
proof (cases "option_tuple_at ev i")
  case None
  then show ?thesis using assms by (simp add: consume_optional_def)
next
  case (Some t)
  obtain ao os sep ex where t: "t = (ao, os, sep, ex)" by (cases t)
  show ?thesis
  proof (cases ao)
    case None
    then show ?thesis using assms Some t by (auto simp: consume_optional_def)
  next
    case (Some a)
    with assms \<open>option_tuple_at ev i = Some t\<close> t
    obtain ts xs where "explicit_loop ev i [] a os sep ex = Inr (ts, xs, j)"
      by (auto simp: consume_optional_def split: sum.splits)
    then show ?thesis by (rule explicit_loop_stop)
  qed
qed


subsection \<open>An option without its argument stops the loop\<close>

lemma option_indices_iff: "k \<in> set (option_indices ev) \<longleftrightarrow> option_tuple_at ev k \<noteq> None"
  by (auto simp: option_indices_def option_tuple_at_def)

lemma fold_max_ge: "(b :: int) \<le> fold (\<lambda>i m. max (int i) m) xs b"
proof (induction xs arbitrary: b)
  case Nil
  then show ?case by simp
next
  case (Cons x xs)
  have "b \<le> max (int x) b" by simp
  also have "\<dots> \<le> fold (\<lambda>i m. max (int i) m) xs (max (int x) b)" by (rule Cons.IH)
  finally show ?case by simp
qed

lemma fold_max_mem: "x \<in> set xs \<Longrightarrow> int x \<le> fold (\<lambda>i m. max (int i) m) xs b"
proof (induction xs arbitrary: b)
  case Nil
  then show ?case by simp
next
  case (Cons y xs)
  show ?case
  proof (cases "x = y")
    case True
    have "int x \<le> max (int y) b" using True by simp
    also have "\<dots> \<le> fold (\<lambda>i m. max (int i) m) xs (max (int y) b)" by (rule fold_max_ge)
    finally show ?thesis by simp
  next
    case False
    then have "x \<in> set xs" using Cons.prems by simp
    then show ?thesis using Cons.IH by simp
  qed
qed

lemma max_option_string_index_ge:
  "option_tuple_at ev k \<noteq> None \<Longrightarrow> int k \<le> max_option_string_index ev"
  unfolding max_option_string_index_def
  by (rule fold_max_mem) (simp add: option_indices_iff)

lemma next_option_string_index_le:
  assumes "option_tuple_at ev k \<noteq> None" "i \<le> k"
  shows "next_option_string_index ev i \<le> k
    \<and> option_tuple_at ev (next_option_string_index ev i) \<noteq> None"
proof -
  define xs where "xs = filter (\<lambda>j. i \<le> j) (option_indices ev)"
  have k: "k \<in> set xs" using assms by (simp add: xs_def option_indices_iff)
  then obtain x rest where xs: "xs = x # rest" by (cases xs) auto
  have "next_option_string_index ev i = fold min rest x"
    using xs by (simp add: next_option_string_index_def xs_def [symmetric])
  also have "\<dots> = Min (set xs)" unfolding xs by (rule Min.set_eq_fold [symmetric])
  finally have nx: "next_option_string_index ev i = Min (set xs)" .
  have "Min (set xs) \<in> set xs" using k by (intro Min_in) auto
  then have "option_tuple_at ev (Min (set xs)) \<noteq> None"
    by (simp add: xs_def option_indices_iff)
  moreover have "Min (set xs) \<le> k" using k by (intro Min_le) auto
  ultimately show ?thesis unfolding nx by simp
qed

lemma next_option_string_index_here:
  assumes "option_tuple_at ev i \<noteq> None"
  shows "next_option_string_index ev i = i"
  using next_option_string_index_le [OF assms, of i] next_option_string_index_ge [of i ev]
  by simp

text \<open>One turn of the loop.\<close>

lemma consume_loop_turn:
  assumes "int i \<le> max_option_string_index ev"
  shows "consume_loop ev st i =
      (case (if i \<noteq> next_option_string_index ev i then consume_positionals ev st i
             else Inr (st, i)) of
         Inl e \<Rightarrow> Inl e
       | Inr (st1, pend) \<Rightarrow>
           if i \<noteq> next_option_string_index ev i \<and> i < pend then consume_loop ev st1 pend
           else
             (case consume_optional ev
                (if option_tuple_at ev pend = None
                 then st1\<lparr>extras := extras st1 @
                        drop pend (take (next_option_string_index ev i) (arg_strings ev))\<rparr>
                 else st1)
                (if option_tuple_at ev pend = None then next_option_string_index ev i else pend) of
                Inl e \<Rightarrow> Inl e
              | Inr (st3, stop) \<Rightarrow> consume_loop ev st3 stop))"
  by (subst consume_loop.simps) (simp add: assms Let_def split: sum.splits)

text \<open>Before the index \<open>k\<close> of an option, neither the positionals nor an earlier
  option take the string at \<open>k\<close>; if the action of the option at \<open>k\<close> does not find
  its arguments in what follows, the loop ends there with an error, unless it has
  ended before.\<close>

lemma consume_positionals_before:
  assumes "consume_positionals ev st i = Inr (st', j)"
    and "i \<le> k" "k < length (arg_strings_pattern ev)" "arg_strings_pattern ev ! k = CHR ''O''"
  shows "j \<le> k"
proof -
  have "j \<le> i + length (takeWhile argument_char (drop i (arg_strings_pattern ev)))"
    using assms(1) by (rule consume_positionals_stop)
  moreover have "length (takeWhile argument_char (drop i (arg_strings_pattern ev))) \<le> k - i"
    using assms(2,3,4) by (intro takeWhile_bound) (simp_all add: argument_char_def)
  ultimately show ?thesis using assms(2) by simp
qed

lemma consume_optional_before:
  assumes "consume_optional ev st i = Inr (st', j)"
    and "i < k" "k < length (arg_strings_pattern ev)" "arg_strings_pattern ev ! k = CHR ''O''"
  shows "j \<le> k"
proof -
  have "j \<le> i + 1 + length (takeWhile argument_char (drop (i + 1) (arg_strings_pattern ev)))"
    using assms(1) by (rule consume_optional_stop)
  moreover have "length (takeWhile argument_char (drop (i + 1) (arg_strings_pattern ev)))
      \<le> k - (i + 1)"
    using assms(2,3,4) by (intro takeWhile_bound) (simp_all add: argument_char_def)
  ultimately show ?thesis using assms(2) by simp
qed

lemma consume_optional_fails:
  assumes "option_tuple_at ev k = Some (Some a, os, sep, None)"
    and "match_argument a (drop (k + 1) (arg_strings_pattern ev)) = Inl e0"
  shows "consume_optional ev st k = Inl e0"
  using assms by (simp add: consume_optional_def)

lemma consume_loop_blocked:
  assumes tk: "option_tuple_at ev k = Some (Some a, os, sep, None)"
    and fail: "match_argument a (drop (k + 1) (arg_strings_pattern ev)) = Inl e0"
    and wf: "\<And>j. option_tuple_at ev j \<noteq> None \<Longrightarrow>
      j < length (arg_strings_pattern ev) \<and> arg_strings_pattern ev ! j = CHR ''O''"
    and ik: "i \<le> k"
  shows "\<exists>e. consume_loop ev st i = Inl e"
  using ik
proof (induction "k - i" arbitrary: i st rule: less_induct)
  case less
  define nx where "nx = next_option_string_index ev i"
  have tk': "option_tuple_at ev k \<noteq> None" using tk by simp
  have k: "k < length (arg_strings_pattern ev)" "arg_strings_pattern ev ! k = CHR ''O''"
    using wf [OF tk'] by simp_all
  have le: "int i \<le> max_option_string_index ev"
    using max_option_string_index_ge [OF tk'] less.prems by simp
  have nx: "i \<le> nx" "nx \<le> k" "option_tuple_at ev nx \<noteq> None"
    using next_option_string_index_le [OF tk' less.prems] next_option_string_index_ge [of i ev]
    by (simp_all add: nx_def)
  have nxp: "nx < length (arg_strings_pattern ev)" "arg_strings_pattern ev ! nx = CHR ''O''"
    using wf [OF nx(3)] by simp_all
  note turn = consume_loop_turn [OF le, of st, folded nx_def]
  have opt: "\<exists>e. (case consume_optional ev s nx of Inl e \<Rightarrow> Inl e
                  | Inr (st3, stop) \<Rightarrow> consume_loop ev st3 stop) = Inl e" for s
  proof (cases "consume_optional ev s nx")
    case (Inl e)
    then show ?thesis by simp
  next
    case (Inr r)
    obtain st3 stop where r: "r = (st3, stop)" by (cases r)
    have co: "consume_optional ev s nx = Inr (st3, stop)" using Inr r by simp
    have "nx \<noteq> k" using co consume_optional_fails [OF tk fail, of s] by auto
    then have "nx < k" using nx(2) by simp
    then have "stop \<le> k" using co k by (intro consume_optional_before [OF co]) simp_all
    moreover have "nx < stop" using co by (rule consume_optional_index)
    ultimately have "k - stop < k - i" using nx(1) by simp
    then have "\<exists>e. consume_loop ev st3 stop = Inl e"
      using \<open>stop \<le> k\<close> by (rule less.hyps)
    then show ?thesis using co by simp
  qed
  show ?case
  proof (cases "i = nx")
    case True
    then have "option_tuple_at ev i \<noteq> None" using nx(3) by simp
    then show ?thesis unfolding turn using True opt [of st] by simp
  next
    case False
    have none: "option_tuple_at ev i = None"
    proof (rule ccontr)
      assume "option_tuple_at ev i \<noteq> None"
      then have "next_option_string_index ev i = i" by (rule next_option_string_index_here)
      then show False using False by (simp add: nx_def)
    qed
    show ?thesis
    proof (cases "consume_positionals ev st i")
      case (Inl e)
      then show ?thesis unfolding turn using False by simp
    next
      case (Inr r)
      obtain st1 pend where r: "r = (st1, pend)" by (cases r)
      have cp: "consume_positionals ev st i = Inr (st1, pend)" using Inr r by simp
      have pend: "i \<le> pend" "pend \<le> nx"
        using consume_positionals_index [OF cp]
          consume_positionals_before [OF cp nx(1) nxp] by simp_all
      show ?thesis
      proof (cases "i < pend")
        case True
        then have "k - pend < k - i" using pend nx(2) by simp
        moreover have "pend \<le> k" using pend nx(2) by simp
        ultimately have "\<exists>e. consume_loop ev st1 pend = Inl e" by (rule less.hyps)
        then show ?thesis unfolding turn using False cp True by simp
      next
        case f: False
        then have "pend = i" using pend by simp
        then show ?thesis
          unfolding turn using False cp none
            opt [of "st1\<lparr>extras := extras st1 @ drop i (take nx (arg_strings ev))\<rparr>"]
          by simp
      qed
    qed
  qed
qed


subsection \<open>The pattern around \<open>--required-files\<close>\<close>

lemma classify_wf:
  "classify acts args = Inr (p, ts) \<Longrightarrow> j < length ts \<Longrightarrow> ts ! j \<noteq> None \<Longrightarrow>
   p ! j = CHR ''O''"
proof (induction args arbitrary: p ts j)
  case Nil
  then show ?case by simp
next
  case (Cons s args)
  show ?case
  proof (cases "s = ''--''")
    case True
    then have "ts = None # replicate (length args) None" using Cons.prems(1) by simp
    then have "ts = replicate (Suc (length args)) None" by simp
    then have "ts ! j = None" using Cons.prems(2) by (metis length_replicate nth_replicate)
    then show ?thesis using Cons.prems(3) by simp
  next
    case False
    from Cons.prems(1) False obtain t p' ts' where
      t: "parse_optional acts s = Inr t" and
      r: "classify acts args = Inr (p', ts')" and
      p: "p = (if t = None then CHR ''A'' else CHR ''O'') # p'" and ts: "ts = t # ts'"
      by (auto split: sum.splits)
    show ?thesis
    proof (cases j)
      case 0
      then show ?thesis using Cons.prems(3) p ts by simp
    next
      case (Suc j')
      then have "j' < length ts'" "ts' ! j' \<noteq> None" using Cons.prems(2,3) ts by simp_all
      then have "p' ! j' = CHR ''O''" by (rule Cons.IH [OF r])
      then show ?thesis using Suc p by simp
    qed
  qed
qed

lemma classify_append:
  "''--'' \<notin> set pre \<Longrightarrow> classify acts (pre @ rest) = Inr (p, ts) \<Longrightarrow>
   classify acts rest = Inr (drop (length pre) p, drop (length pre) ts)"
proof (induction pre arbitrary: p ts)
  case Nil
  then show ?case by simp
next
  case (Cons s pre)
  have s: "s \<noteq> ''--''" "''--'' \<notin> set pre" using Cons.prems(1) by auto
  from Cons.prems(2) s(1) obtain t p' ts' where
    r: "classify acts (pre @ rest) = Inr (p', ts')" and
    p: "p = (if t = None then CHR ''A'' else CHR ''O'') # p'" and ts: "ts = t # ts'"
    by (auto split: sum.splits)
  show ?case using Cons.IH [OF s(2) r] p ts by simp
qed

lemma classify_arguments:
  "\<forall>t\<in>set pre. parse_optional acts t = Inr None \<and> t \<noteq> ''--'' \<Longrightarrow>
   classify acts (pre @ rest) =
     (case classify acts rest of
        Inl e \<Rightarrow> Inl e
      | Inr (p, ts) \<Rightarrow>
          Inr (replicate (length pre) CHR ''A'' @ p, replicate (length pre) None @ ts))"
proof (induction pre)
  case Nil
  then show ?case by (simp split: sum.splits)
next
  case (Cons s pre)
  have s: "parse_optional acts s = Inr None" "s \<noteq> ''--''" using Cons.prems by simp_all
  have "classify acts ((s # pre) @ rest) =
     (case classify acts (pre @ rest) of Inl e \<Rightarrow> Inl e
      | Inr (p, ts) \<Rightarrow> Inr (CHR ''A'' # p, None # ts))"
    using classify_argument [OF s] by simp
  also have "classify acts (pre @ rest) =
     (case classify acts rest of
        Inl e \<Rightarrow> Inl e
      | Inr (p, ts) \<Rightarrow>
          Inr (replicate (length pre) CHR ''A'' @ p, replicate (length pre) None @ ts))"
    using Cons.prems by (intro Cons.IH) simp
  finally show ?case by (simp split: sum.splits)
qed

lemma parse_optional_required:
  "parse_optional main_actions ''--required-files'' =
     Inr (Some (Some required_files_action, ''--required-files'', None, None))"
  by (simp add: parse_optional_def main_option_strings)

lemma classify_required:
  "classify main_actions (''--required-files'' # post) =
     (case classify main_actions post of
        Inl e \<Rightarrow> Inl e
      | Inr (p, ts) \<Rightarrow>
          Inr (CHR ''O'' # p,
               Some (Some required_files_action, ''--required-files'', None, None) # ts))"
  by (simp add: parse_optional_required split: sum.splits)

lemma classify_hd:
  assumes "classify acts (t # rest) = Inr (p, ts)"
  shows "p \<noteq> [] \<and> (hd p = CHR ''A'' \<longrightarrow> t \<noteq> ''--'' \<and> parse_optional acts t = Inr None)"
proof (cases "t = ''--''")
  case True
  then show ?thesis using assms by auto
next
  case False
  from assms False obtain tp p' ts' where
    "parse_optional acts t = Inr tp" "p = (if tp = None then CHR ''A'' else CHR ''O'') # p'"
    by (auto split: sum.splits)
  then show ?thesis using False by (auto split: if_splits)
qed

text \<open>What follows the option: nothing, or a string that is not an argument.\<close>

lemma classify_no_argument:
  assumes "classify acts post = Inr (p, ts)"
    and "post = [] \<or> hd post = ''--'' \<or> parse_optional acts (hd post) \<noteq> Inr None"
  shows "p = [] \<or> hd p \<noteq> CHR ''A''"
proof (cases post)
  case Nil
  then show ?thesis using assms(1) by simp
next
  case (Cons t rest)
  then have "hd p = CHR ''A'' \<longrightarrow> t \<noteq> ''--'' \<and> parse_optional acts t = Inr None"
    using classify_hd [of acts t rest p ts] assms(1) by simp
  then show ?thesis using assms(2) Cons by auto
qed

lemma match_required_fails:
  assumes "p = [] \<or> hd p \<noteq> CHR ''A''"
  shows "match_argument required_files_action p =
     Inl (ExitError (ArgumentError ''--required-files'' ExpectedAtLeastOneArgument))"
proof -
  have g: "get_nargs_pattern required_files_action = [Lit CHR ''A'', Star ''A'']"
    by (simp add: get_nargs_pattern_def strip_dashes_def)
  have "rx_match 0 [Lit CHR ''A'', Star ''A''] [] p = None"
    using assms by (cases p) auto
  then show ?thesis
    by (simp add: match_argument_def g get_action_name_def join_def nargs_error_def)
qed


subsection \<open>The parse of a command line with \<open>--required-files\<close> and no argument\<close>

lemma setup_parser_loop_error:
  assumes "classify main_actions argv = Inr (p, ts)"
    and "consume_loop \<lparr>actions = main_actions, arg_strings = argv,
        arg_strings_pattern = p, option_string_indices = ts\<rparr>
      \<lparr>ns = add_defaults main_actions nsp, seen_actions = {},
        positionals = [source_action, optional_destination_action], extras = []\<rparr> 0 = Inl e"
  shows "setup_parser nsp argv = Inl e"
  using assms
  by (simp add: setup_parser_def parse_args_def parse_known_args_def Let_def main_positionals)

lemma required_files_blocked:
  assumes pre: "''--'' \<notin> set pre"
    and post: "post = [] \<or> hd post = ''--'' \<or> parse_optional main_actions (hd post) \<noteq> Inr None"
  shows "\<exists>e. setup_parser nsp (pre @ ''--required-files'' # post) = Inl e"
proof (cases "classify main_actions (pre @ ''--required-files'' # post)")
  case (Inl e)
  then show ?thesis
    by (simp add: setup_parser_def parse_args_def parse_known_args_def)
next
  case (Inr r)
  obtain p ts where r: "r = (p, ts)" by (cases r)
  define k where "k = length pre"
  define ev where "ev = \<lparr>actions = main_actions,
    arg_strings = pre @ ''--required-files'' # post,
    arg_strings_pattern = p, option_string_indices = ts\<rparr>"
  have cl: "classify main_actions (pre @ ''--required-files'' # post) = Inr (p, ts)"
    using Inr r by simp
  have len: "length p = length pre + Suc (length post)" "length ts = length pre + Suc (length post)"
    using classify_shape [OF cl] by simp_all
  have rest: "classify main_actions (''--required-files'' # post) = Inr (drop k p, drop k ts)"
    unfolding k_def using pre cl by (rule classify_append)
  then obtain p' ts' where post': "classify main_actions post = Inr (p', ts')"
    and dp: "drop k p = CHR ''O'' # p'"
    and dts: "drop k ts = Some (Some required_files_action, ''--required-files'', None, None) # ts'"
    unfolding classify_required by (auto split: sum.splits)
  have "ts ! k = hd (drop k ts)" using len by (simp add: k_def hd_drop_conv_nth)
  then have tk: "option_tuple_at ev k =
      Some (Some required_files_action, ''--required-files'', None, None)"
    using dts len by (simp add: option_tuple_at_def ev_def k_def)
  have "drop (k + 1) p = tl (drop k p)" by (simp add: drop_Suc tl_drop)
  then have dp': "drop (k + 1) (arg_strings_pattern ev) = p'" using dp by (simp add: ev_def)
  have fail: "match_argument required_files_action (drop (k + 1) (arg_strings_pattern ev)) =
      Inl (ExitError (ArgumentError ''--required-files'' ExpectedAtLeastOneArgument))"
    unfolding dp' using classify_no_argument [OF post' post] by (rule match_required_fails)
  have wf: "j < length (arg_strings_pattern ev) \<and> arg_strings_pattern ev ! j = CHR ''O''"
    if "option_tuple_at ev j \<noteq> None" for j
  proof -
    from that have j: "j < length ts" "ts ! j \<noteq> None"
      by (auto simp: option_tuple_at_def ev_def split: if_splits)
    then have "p ! j = CHR ''O''" by (rule classify_wf [OF cl])
    then show ?thesis using j(1) len by (simp add: ev_def)
  qed
  have "\<exists>e. consume_loop ev \<lparr>ns = add_defaults main_actions nsp, seen_actions = {},
        positionals = [source_action, optional_destination_action], extras = []\<rparr> 0 = Inl e"
    using tk fail wf le0 by (rule consume_loop_blocked)
  then obtain e where "consume_loop ev \<lparr>ns = add_defaults main_actions nsp, seen_actions = {},
        positionals = [source_action, optional_destination_action], extras = []\<rparr> 0 = Inl e" ..
  then have "setup_parser nsp (pre @ ''--required-files'' # post) = Inl e"
    unfolding ev_def by (rule setup_parser_loop_error [OF cl])
  then show ?thesis ..
qed


subsection \<open>Only arguments before the option\<close>

text \<open>The two positionals of main.py accept whatever strings they are given, so
  nothing fails before the option is reached.\<close>

lemma get_value_list_plain:
  "type_func a = TypeNone \<Longrightarrow> get_value_list a ss = Inr (map VStr ss)"
  by (induction ss) (simp_all add: get_value_identity)

lemma check_value_plain: "choices a = None \<Longrightarrow> check_value a v = Inr ()"
  by (simp add: check_value_def)

lemma check_value_list_plain: "choices a = None \<Longrightarrow> check_value_list a vs = Inr ()"
  by (induction vs) (simp_all add: check_value_plain)

lemma get_values_source: "\<exists>v. get_values source_action args = Inr v"
  by (simp add: get_values_def Let_def get_value_identity check_value_plain
      get_value_list_plain check_value_list_plain)

lemma get_values_optional_destination:
  "\<exists>v. get_values optional_destination_action args = Inr v"
  by (simp add: get_values_def Let_def get_value_identity check_value_plain
      get_value_list_plain check_value_list_plain)

lemma take_action_plain:
  assumes "a \<in> {source_action, optional_destination_action}"
  shows "\<exists>st'. take_action st a args = Inr st' \<and> positionals st' = positionals st"
proof -
  from assms obtain v where "get_values a args = Inr v"
    using get_values_source [of args] get_values_optional_destination [of args] by auto
  moreover have "action_class a = StoreAction" using assms by auto
  ultimately show ?thesis by (simp add: take_action_def Let_def)
qed

lemma take_positionals_plain:
  "fst ` set zs \<subseteq> {source_action, optional_destination_action} \<Longrightarrow>
   \<exists>st' j. take_positionals args st i zs = Inr (st', j) \<and> positionals st' = positionals st"
proof (induction zs arbitrary: st i)
  case Nil
  then show ?case by simp
next
  case (Cons z zs)
  obtain a n where z: "z = (a, n)" by (cases z)
  have "a \<in> {source_action, optional_destination_action}" using Cons.prems z by simp
  then obtain st1 where st1: "take_action st a (take n (drop i args)) = Inr st1"
    "positionals st1 = positionals st"
    using take_action_plain by blast
  have "fst ` set zs \<subseteq> {source_action, optional_destination_action}"
    using Cons.prems by simp
  from Cons.IH [OF this, of st1 "i + n"] obtain st' j where
    "take_positionals args st1 (i + n) zs = Inr (st', j)" "positionals st' = positionals st1"
    by blast
  then show ?case using st1 z by simp
qed

lemma consume_positionals_plain:
  assumes "set (positionals st) \<subseteq> {source_action, optional_destination_action}"
  shows "\<exists>st' j. consume_positionals ev st i = Inr (st', j)
    \<and> set (positionals st') \<subseteq> {source_action, optional_destination_action}"
proof -
  define cs where "cs = match_arguments_partial (positionals st) (drop i (arg_strings_pattern ev))"
  have "fst ` set (zip (positionals st) cs) \<subseteq> set (positionals st)"
    by (auto dest: set_zip_leftD)
  then have "fst ` set (zip (positionals st) cs) \<subseteq> {source_action, optional_destination_action}"
    using assms by blast
  from take_positionals_plain [OF this, of "arg_strings ev" st i] obtain st1 j where
    tp: "take_positionals (arg_strings ev) st i (zip (positionals st) cs) = Inr (st1, j)"
    and ps: "positionals st1 = positionals st"
    by blast
  have "consume_positionals ev st i =
      Inr (st1\<lparr>positionals := drop (length cs) (positionals st1)\<rparr>, j)"
    using tp by (simp add: consume_positionals_def Let_def cs_def)
  moreover have "set (drop (length cs) (positionals st1)) \<subseteq> set (positionals st)"
    unfolding ps by (rule set_drop_subset)
  then have "set (drop (length cs) (positionals st1))
      \<subseteq> {source_action, optional_destination_action}"
    using assms by (rule subset_trans)
  ultimately show ?thesis by simp
qed

lemma consume_loop_required:
  assumes tk: "option_tuple_at ev k = Some (Some a, os, sep, None)"
    and fail: "match_argument a (drop (k + 1) (arg_strings_pattern ev)) = Inl e0"
    and wf: "\<And>j. option_tuple_at ev j \<noteq> None \<Longrightarrow>
      j < length (arg_strings_pattern ev) \<and> arg_strings_pattern ev ! j = CHR ''O''"
    and first: "\<And>j. i0 \<le> j \<Longrightarrow> j < k \<Longrightarrow> option_tuple_at ev j = None"
    and i0: "i0 \<le> i"
    and ik: "i \<le> k"
    and pos: "set (positionals st) \<subseteq> {source_action, optional_destination_action}"
  shows "consume_loop ev st i = Inl e0"
  using i0 ik pos
proof (induction "k - i" arbitrary: i st rule: less_induct)
  case less
  have tk': "option_tuple_at ev k \<noteq> None" using tk by simp
  have k: "k < length (arg_strings_pattern ev)" "arg_strings_pattern ev ! k = CHR ''O''"
    using wf [OF tk'] by simp_all
  have le: "int i \<le> max_option_string_index ev"
    using max_option_string_index_ge [OF tk'] less.prems(2) by simp
  have "next_option_string_index ev i \<le> k"
    "option_tuple_at ev (next_option_string_index ev i) \<noteq> None"
    using next_option_string_index_le [OF tk' less.prems(2)] by simp_all
  moreover have "i0 \<le> next_option_string_index ev i"
    using next_option_string_index_ge [of i ev] less.prems(1) by simp
  ultimately have nx: "next_option_string_index ev i = k"
    using first [of "next_option_string_index ev i"]
    by (cases "next_option_string_index ev i < k") simp_all
  note turn = consume_loop_turn [OF le, of st, unfolded nx]
  have opt: "consume_optional ev s k = Inl e0" for s
    using tk fail by (rule consume_optional_fails)
  show ?case
  proof (cases "i = k")
    case True
    then show ?thesis unfolding turn using tk' opt [of st] by simp
  next
    case False
    then have ik: "i < k" using less.prems(2) by simp
    have none: "option_tuple_at ev i = None" using less.prems(1) ik by (rule first)
    from consume_positionals_plain [OF less.prems(3), of ev i] obtain st1 pend where
      cp: "consume_positionals ev st i = Inr (st1, pend)"
      and ps: "set (positionals st1) \<subseteq> {source_action, optional_destination_action}"
      by blast
    have pend: "i \<le> pend" "pend \<le> k"
      using consume_positionals_index [OF cp]
        consume_positionals_before [OF cp less.prems(2) k] by simp_all
    show ?thesis
    proof (cases "i < pend")
      case True
      then have "k - pend < k - i" using pend by simp
      moreover have "i0 \<le> pend" using pend(1) less.prems(1) by simp
      ultimately have "consume_loop ev st1 pend = Inl e0" using pend(2) ps by (rule less.hyps)
      then show ?thesis unfolding turn using False cp True by simp
    next
      case f: False
      then have "pend = i" using pend by simp
      then show ?thesis
        unfolding turn using False cp none
          opt [of "st1\<lparr>extras := extras st1 @ drop i (take k (arg_strings ev))\<rparr>"]
        by simp
    qed
  qed
qed


subsection \<open>The strings before the option, taken alone\<close>

text \<open>An \<open>O\<close> in the pattern ends every match like the end of the pattern does.\<close>

lemma rx_match_append:
  "\<forall>x\<in>set r. rx_within C x \<Longrightarrow> \<forall>g\<in>set gs. \<forall>x\<in>set g. rx_within C x \<Longrightarrow> c \<notin> C \<Longrightarrow>
   rx_match n r gs (s @ c # rest) = rx_match n r gs s"
proof (induction n r gs s rule: rx_match.induct)
  case (1 n s)
  then show ?case by simp
next
  case (2 n g gs s)
  have "rx_match 0 g gs (s @ c # rest) = rx_match 0 g gs s"
    using "2.prems" by (intro "2.IH") simp_all
  then show ?case by simp
next
  case (3 n c' r gs)
  have "c \<noteq> c'" using "3.prems"(1,3) by auto
  then show ?case by simp
next
  case (4 n c' r gs x xs)
  show ?case
  proof (cases "x = c'")
    case True
    have "rx_match (Suc n) r gs (xs @ c # rest) = rx_match (Suc n) r gs xs"
      using "4.prems" by (intro "4.IH" [OF True]) simp_all
    then show ?thesis using True by simp
  next
    case False
    then show ?thesis by simp
  qed
next
  case (5 n c' r gs)
  have ne: "c \<noteq> c'" using "5.prems"(1,3) by auto
  have "rx_match n r gs ([] @ c # rest) = rx_match n r gs []"
    using "5.prems" by (intro "5.IH") simp_all
  then show ?case using ne by simp
next
  case (6 n c' r gs x xs)
  show ?case
  proof (cases "x = c'")
    case True
    have a: "rx_match (Suc n) r gs (xs @ c # rest) = rx_match (Suc n) r gs xs"
      using "6.prems" by (intro "6.IH"(1) [OF True]) simp_all
    show ?thesis
    proof (cases "rx_match (Suc n) r gs xs")
      case None
      have "rx_match n r gs ((x # xs) @ c # rest) = rx_match n r gs (x # xs)"
        using "6.prems" by (intro "6.IH"(2) [OF True None]) simp_all
      then show ?thesis using True a None by simp
    next
      case (Some res)
      then show ?thesis using True a by simp
    qed
  next
    case False
    have "rx_match n r gs ((x # xs) @ c # rest) = rx_match n r gs (x # xs)"
      using "6.prems" by (intro "6.IH"(3) [OF False]) simp_all
    then show ?thesis using False by simp
  qed
next
  case (7 n cs r gs)
  have ne: "c \<notin> set cs" using "7.prems"(1,3) by auto
  have "rx_match n r gs ([] @ c # rest) = rx_match n r gs []"
    using "7.prems" by (intro "7.IH") simp_all
  then show ?case using ne by simp
next
  case (8 n cs r gs x xs)
  show ?case
  proof (cases "x \<in> set cs")
    case True
    have a: "rx_match (Suc n) (Star cs # r) gs (xs @ c # rest) = rx_match (Suc n) (Star cs # r) gs xs"
      using "8.prems" by (intro "8.IH"(1) [OF True]) simp_all
    show ?thesis
    proof (cases "rx_match (Suc n) (Star cs # r) gs xs")
      case None
      have "rx_match n r gs ((x # xs) @ c # rest) = rx_match n r gs (x # xs)"
        using "8.prems" by (intro "8.IH"(2) [OF True None]) simp_all
      then show ?thesis using True a None by simp
    next
      case (Some res)
      then show ?thesis using True a by simp
    qed
  next
    case False
    have "rx_match n r gs ((x # xs) @ c # rest) = rx_match n r gs (x # xs)"
      using "8.prems" by (intro "8.IH"(3) [OF False]) simp_all
    then show ?thesis using False by simp
  qed
qed

lemma match_argument_append:
  "match_argument a (s @ CHR ''O'' # rest) = match_argument a s"
proof -
  have notO: "CHR ''O'' \<notin> {c. argument_char c}" by (simp add: argument_char_def)
  have "\<forall>g\<in>set ([] :: rx list list). \<forall>x\<in>set g. rx_within {c. argument_char c} x" by simp
  with nargs_pattern_within
  have "rx_match 0 (get_nargs_pattern a) [] (s @ CHR ''O'' # rest) =
      rx_match 0 (get_nargs_pattern a) [] s"
    using notO by (rule rx_match_append)
  then show ?thesis by (simp add: match_argument_def)
qed

lemma match_slices_append:
  "match_slices k acts (s @ CHR ''O'' # rest) = match_slices k acts s"
proof (induction k)
  case 0
  then show ?case by simp
next
  case (Suc i)
  show ?case
  proof (cases "map get_nargs_pattern (take (Suc i) acts)")
    case Nil
    then show ?thesis using Suc by simp
  next
    case (Cons g gs)
    have within: "\<forall>g'\<in>set (g # gs). \<forall>x\<in>set g'. rx_within {c. argument_char c} x"
      unfolding Cons [symmetric] using nargs_pattern_within by auto
    have notO: "CHR ''O'' \<notin> {c. argument_char c}" by (simp add: argument_char_def)
    have w1: "\<forall>x\<in>set g. rx_within {c. argument_char c} x"
      and w2: "\<forall>g'\<in>set gs. \<forall>x\<in>set g'. rx_within {c. argument_char c} x"
      using within by simp_all
    have "rx_match 0 g gs (s @ CHR ''O'' # rest) = rx_match 0 g gs s"
      using w1 w2 notO by (rule rx_match_append)
    then show ?thesis using Suc Cons by (simp split: option.splits)
  qed
qed

lemma take_positionals_append:
  "i + sum_list (map snd zs) \<le> length pre \<Longrightarrow>
   take_positionals (pre @ rest) st i zs = take_positionals pre st i zs"
proof (induction zs arbitrary: st i)
  case Nil
  then show ?case by simp
next
  case (Cons z zs)
  obtain a n where z: "z = (a, n)" by (cases z)
  have le: "i + n \<le> length pre" "i + n + sum_list (map snd zs) \<le> length pre"
    using Cons.prems z by simp_all
  have t: "take n (drop i (pre @ rest)) = take n (drop i pre)" using le(1) by simp
  show ?case
    unfolding z take_positionals.simps t using Cons.IH [OF le(2)]
    by (cases "take_action st a (take n (drop i pre))") simp_all
qed

lemma consume_positionals_append:
  assumes ext: "extends ev1 ev" and i: "i \<le> length (arg_strings_pattern ev1)"
  shows "consume_positionals ev st i = consume_positionals ev1 st i"
proof -
  from ext obtain rest p' where
    args: "arg_strings ev = arg_strings ev1 @ rest"
    and pat: "arg_strings_pattern ev = arg_strings_pattern ev1 @ CHR ''O'' # p'"
    and len: "length (arg_strings ev1) = length (arg_strings_pattern ev1)"
    by (auto simp: extends_def)
  define cs where "cs = match_arguments_partial (positionals st) (drop i (arg_strings_pattern ev1))"
  have d: "drop i (arg_strings_pattern ev) = drop i (arg_strings_pattern ev1) @ CHR ''O'' # p'"
    using pat i by simp
  have cs: "match_arguments_partial (positionals st) (drop i (arg_strings_pattern ev)) = cs"
    unfolding d cs_def match_arguments_partial_def by (rule match_slices_append)
  have "sum_list (map snd (zip (positionals st) cs)) \<le> sum_list cs" by (rule sum_zip_le)
  also have "sum_list cs \<le> length (takeWhile argument_char (drop i (arg_strings_pattern ev1)))"
    unfolding cs_def match_arguments_partial_def by (rule match_slices_bound)
  also have "\<dots> \<le> length (drop i (arg_strings_pattern ev1))" by (rule length_takeWhile_le)
  finally have "i + sum_list (map snd (zip (positionals st) cs)) \<le> length (arg_strings ev1)"
    using len i by simp
  then have "take_positionals (arg_strings ev) st i (zip (positionals st) cs) =
      take_positionals (arg_strings ev1) st i (zip (positionals st) cs)"
    unfolding args by (rule take_positionals_append)
  then show ?thesis
    unfolding consume_positionals_def cs cs_def [symmetric] by simp
qed


lemma explicit_loop_append:
  assumes "extends ev1 ev" and "i < length (arg_strings_pattern ev1)"
  shows "explicit_loop ev i acc a os sep ex = explicit_loop ev1 i acc a os sep ex"
  using assms
proof (induction ev1 i acc a os sep ex rule: explicit_loop.induct)
  case (1 ev1 i acc a os sep)
  from "1.prems"(1) obtain rest p' where
    args: "arg_strings ev = arg_strings ev1 @ rest"
    and pat: "arg_strings_pattern ev = arg_strings_pattern ev1 @ CHR ''O'' # p'"
    and len: "length (arg_strings ev1) = length (arg_strings_pattern ev1)"
    by (auto simp: extends_def)
  define q where "q = drop (i + 1) (arg_strings_pattern ev1)"
  have d: "drop (i + 1) (arg_strings_pattern ev) = q @ CHR ''O'' # p'"
    using pat "1.prems"(2) by (simp add: q_def)
  have m: "match_argument a (drop (i + 1) (arg_strings_pattern ev)) = match_argument a q"
    unfolding d by (rule match_argument_append)
  show ?case
  proof (cases "match_argument a q")
    case (Inl e)
    then show ?thesis using m by (simp add: q_def)
  next
    case (Inr n)
    have "n \<le> length (takeWhile argument_char q)" using Inr by (rule match_argument_bound)
    also have "\<dots> \<le> length q" by (rule length_takeWhile_le)
    finally have "i + 1 + n \<le> length (arg_strings ev1)"
      using len "1.prems"(2) by (simp add: q_def)
    then have "take n (drop (i + 1) (arg_strings ev)) = take n (drop (i + 1) (arg_strings ev1))"
      unfolding args by simp
    then show ?thesis using m Inr by (simp add: q_def)
  qed
next
  case (2 ev1 i acc a os sep explicit_arg)
  have act: "actions ev = actions ev1" using "2.prems"(1) by (simp add: extends_def)
  show ?case
  proof (cases "match_argument a ''A''")
    case (Inl e)
    then show ?thesis by simp
  next
    case (Inr arg_count)
    show ?thesis
    proof (cases os)
      case Nil
      then show ?thesis using Inr by simp
    next
      case (Cons c0 r)
      show ?thesis
      proof (cases r)
        case Nil
        then show ?thesis using Inr Cons by simp
      next
        case (Cons c1 r')
        note os = \<open>os = c0 # r\<close> Cons
        show ?thesis
        proof (cases "arg_count = 0 \<and> c1 \<noteq> CHR ''-'' \<and> explicit_arg \<noteq> []")
          case False
          then show ?thesis using Inr os by (auto split: if_splits)
        next
          case True
          show ?thesis
          proof (cases "(sep \<noteq> None \<and> sep \<noteq> Some []) \<or> hd explicit_arg = CHR ''-''")
            case t: True
            then show ?thesis using Inr os True by auto
          next
            case f: False
            show ?thesis
            proof (cases "map_of (option_string_actions (actions ev1)) [c0, hd explicit_arg]")
              case None
              then show ?thesis using Inr os True f act by auto
            next
              case (Some a')
              show ?thesis
                using "2.IH" [OF Inr os(1) os(2) True f refl Some refl] "2.prems"
                  Inr os True f Some act
                by (auto simp: Let_def split: if_splits)
            qed
          qed
        qed
      qed
    qed
  qed
qed

lemma option_tuple_at_extends:
  assumes "extends ev1 ev" and "j < length (arg_strings_pattern ev1)"
  shows "option_tuple_at ev j = option_tuple_at ev1 j"
proof -
  from assms(1) obtain t ts' where
    "option_string_indices ev = option_string_indices ev1 @ Some t # ts'"
    "length (option_string_indices ev1) = length (arg_strings_pattern ev1)"
    by (auto simp: extends_def)
  then show ?thesis using assms(2) by (simp add: option_tuple_at_def nth_append)
qed

lemma option_tuple_at_inside:
  assumes "extends ev1 ev" and "option_tuple_at ev1 j \<noteq> None"
  shows "j < length (arg_strings_pattern ev1)"
proof -
  have "length (option_string_indices ev1) = length (arg_strings_pattern ev1)"
    using assms(1) by (simp add: extends_def)
  then show ?thesis using assms(2) by (auto simp: option_tuple_at_def split: if_splits)
qed

lemma consume_optional_append:
  assumes ext: "extends ev1 ev" and j: "j < length (arg_strings_pattern ev1)"
  shows "consume_optional ev st j = consume_optional ev1 st j"
proof -
  from ext obtain rest where
    args: "arg_strings ev = arg_strings ev1 @ rest"
    and len: "length (arg_strings ev1) = length (arg_strings_pattern ev1)"
    by (auto simp: extends_def)
  have t1: "take 1 (drop j (arg_strings ev)) = take 1 (drop j (arg_strings ev1))"
    unfolding args using j len by simp
  show ?thesis
    unfolding consume_optional_def option_tuple_at_extends [OF ext j] t1
      explicit_loop_append [OF ext j] ..
qed

lemma next_option_string_index_unique:
  assumes "i \<le> n" and "option_tuple_at ev n \<noteq> None"
    and "\<And>j. i \<le> j \<Longrightarrow> j < n \<Longrightarrow> option_tuple_at ev j = None"
  shows "next_option_string_index ev i = n"
proof -
  have "next_option_string_index ev i \<le> n"
    "option_tuple_at ev (next_option_string_index ev i) \<noteq> None"
    using next_option_string_index_le [OF assms(2,1)] by simp_all
  moreover have "i \<le> next_option_string_index ev i" by (rule next_option_string_index_ge)
  ultimately show ?thesis
    using assms(3) [of "next_option_string_index ev i"]
    by (cases "next_option_string_index ev i < n") simp_all
qed

lemma next_option_string_index_least:
  assumes "i \<le> j" and "j < next_option_string_index ev i"
  shows "option_tuple_at ev j = None"
proof (rule ccontr)
  assume "option_tuple_at ev j \<noteq> None"
  then have "next_option_string_index ev i \<le> j"
    using next_option_string_index_le [of ev j i] assms(1) by simp
  then show False using assms(2) by simp
qed

lemma next_option_string_index_extends:
  assumes ext: "extends ev1 ev" and "i \<le> j1" and "option_tuple_at ev1 j1 \<noteq> None"
  shows "next_option_string_index ev i = next_option_string_index ev1 i"
proof (rule next_option_string_index_unique)
  let ?n = "next_option_string_index ev1 i"
  have n: "?n \<le> j1" "option_tuple_at ev1 ?n \<noteq> None"
    using next_option_string_index_le [OF assms(3,2)] by simp_all
  have nk: "?n < length (arg_strings_pattern ev1)" using ext n(2) by (rule option_tuple_at_inside)
  show "i \<le> ?n" by (rule next_option_string_index_ge)
  show "option_tuple_at ev ?n \<noteq> None"
    using n(2) option_tuple_at_extends [OF ext nk] by simp
  fix j assume j: "i \<le> j" "j < ?n"
  then have "option_tuple_at ev1 j = None" by (rule next_option_string_index_least)
  moreover have "j < length (arg_strings_pattern ev1)" using j(2) nk by simp
  ultimately show "option_tuple_at ev j = None"
    using option_tuple_at_extends [OF ext] by simp
qed

lemma fold_max_cases:
  "fold (\<lambda>i m. max (int i) m) xs b = b \<or> (\<exists>x\<in>set xs. fold (\<lambda>i m. max (int i) m) xs b = int x)"
proof (induction xs arbitrary: b)
  case Nil
  then show ?case by simp
next
  case (Cons y xs)
  from Cons.IH [of "max (int y) b"] show ?case
    by (auto simp: max_def split: if_splits)
qed

lemma max_option_string_index_witness:
  assumes "int i \<le> max_option_string_index ev"
  shows "\<exists>j. i \<le> j \<and> option_tuple_at ev j \<noteq> None"
proof -
  have "max_option_string_index ev = - 1
      \<or> (\<exists>x\<in>set (option_indices ev). max_option_string_index ev = int x)"
    unfolding max_option_string_index_def by (rule fold_max_cases)
  then obtain x where "x \<in> set (option_indices ev)" "max_option_string_index ev = int x"
    using assms by auto
  then show ?thesis using assms by (auto simp: option_indices_iff)
qed


text \<open>
  The loop on the whole command line and the loop on the strings before the option,
  taken alone, take the same steps as long as the second one runs. If it stops with
  an error or with the help, so does the first; if it comes to its end, the first
  goes on to the option and stops there with the error of the missing argument.
\<close>

lemma consume_loop_extends:
  assumes ext: "extends ev1 ev"
    and k: "k = length (arg_strings_pattern ev1)"
    and tk: "option_tuple_at ev k = Some (Some a, os, sep, None)"
    and fail: "match_argument a (drop (k + 1) (arg_strings_pattern ev)) = Inl e0"
    and wf: "\<And>j. option_tuple_at ev j \<noteq> None \<Longrightarrow>
      j < length (arg_strings_pattern ev) \<and> arg_strings_pattern ev ! j = CHR ''O''"
    and ik: "i \<le> k"
    and pos: "set (positionals st) \<subseteq> {source_action, optional_destination_action}"
  shows "consume_loop ev st i =
    (case consume_loop ev1 st i of Inl e \<Rightarrow> Inl e | Inr r \<Rightarrow> Inl e0)"
  using ik pos
proof (induction "k - i" arbitrary: i st rule: less_induct)
  case less
  from ext obtain rest p' where
    args: "arg_strings ev = arg_strings ev1 @ rest"
    and pat: "arg_strings_pattern ev = arg_strings_pattern ev1 @ CHR ''O'' # p'"
    and len: "length (arg_strings ev1) = length (arg_strings_pattern ev1)"
    by (auto simp: extends_def)
  have tk': "option_tuple_at ev k \<noteq> None" using tk by simp
  have le: "int i \<le> max_option_string_index ev"
    using max_option_string_index_ge [OF tk'] less.prems(1) by simp
  show ?case
  proof (cases "int i \<le> max_option_string_index ev1")
    case False
    have "consume_loop ev1 st i = Inr (st, i)"
      by (subst consume_loop.simps) (simp add: False)
    moreover have "consume_loop ev st i = Inl e0"
      using tk fail wf
    proof (rule consume_loop_required [where ?i0.0 = i])
      fix j assume j: "i \<le> j" "j < k"
      show "option_tuple_at ev j = None"
      proof (rule ccontr)
        assume "option_tuple_at ev j \<noteq> None"
        then have "option_tuple_at ev1 j \<noteq> None"
          using option_tuple_at_extends [OF ext, of j] j(2) k by simp
        then have "int j \<le> max_option_string_index ev1" by (rule max_option_string_index_ge)
        then show False using False j(1) by simp
      qed
    qed (use less.prems in simp_all)
    ultimately show ?thesis by simp
  next
    case True
    from max_option_string_index_witness [OF True] obtain j1 where
      j1: "i \<le> j1" "option_tuple_at ev1 j1 \<noteq> None" by blast
    define nx where "nx = next_option_string_index ev1 i"
    have nx_ev: "next_option_string_index ev i = nx"
      unfolding nx_def using ext j1 by (rule next_option_string_index_extends)
    have nx: "i \<le> nx" "option_tuple_at ev1 nx \<noteq> None"
      using next_option_string_index_le [OF j1(2,1)] next_option_string_index_ge [of i ev1]
      by (simp_all add: nx_def)
    have nxk: "nx < k" unfolding k using ext nx(2) by (rule option_tuple_at_inside)
    have ot: "option_tuple_at ev j = option_tuple_at ev1 j" if "j < k" for j
      using option_tuple_at_extends [OF ext, of j] that k by simp
    have nxO: "arg_strings_pattern ev1 ! nx = CHR ''O''"
    proof -
      have "option_tuple_at ev nx \<noteq> None" using nx(2) ot [OF nxk] by simp
      then have "arg_strings_pattern ev ! nx = CHR ''O''" using wf by blast
      then show ?thesis using pat nxk k by (simp add: nth_append)
    qed
    note turn1 = consume_loop_turn [OF True, of st, folded nx_def]
    note turn = consume_loop_turn [OF le, of st, unfolded nx_ev]
    have opt: "(case consume_optional ev s nx of Inl e \<Rightarrow> Inl e
                | Inr (st3, stop) \<Rightarrow> consume_loop ev st3 stop) =
        (case (case consume_optional ev1 s nx of Inl e \<Rightarrow> Inl e
               | Inr (st3, stop) \<Rightarrow> consume_loop ev1 st3 stop) of
           Inl e \<Rightarrow> Inl e | Inr r \<Rightarrow> Inl e0)"
      if s: "set (positionals s) \<subseteq> {source_action, optional_destination_action}" for s
    proof -
      have eq: "consume_optional ev s nx = consume_optional ev1 s nx"
        using ext nxk unfolding k by (rule consume_optional_append)
      show ?thesis
      proof (cases "consume_optional ev1 s nx")
        case (Inl e)
        then show ?thesis using eq by simp
      next
        case (Inr r)
        obtain st3 stop where r: "r = (st3, stop)" by (cases r)
        have co: "consume_optional ev1 s nx = Inr (st3, stop)" using Inr r by simp
        have "stop \<le> nx + 1 + length (takeWhile argument_char (drop (nx + 1) (arg_strings_pattern ev1)))"
          using co by (rule consume_optional_stop)
        also have "length (takeWhile argument_char (drop (nx + 1) (arg_strings_pattern ev1)))
            \<le> length (drop (nx + 1) (arg_strings_pattern ev1))"
          by (rule length_takeWhile_le)
        finally have stop: "stop \<le> k" using nxk k by simp
        have "nx < stop" using co by (rule consume_optional_index)
        then have m: "k - stop < k - i" using nx(1) nxk by simp
        have "positionals st3 = positionals s"
          using consume_optional_param [OF co] by simp
        then have "set (positionals st3) \<subseteq> {source_action, optional_destination_action}"
          using s by simp
        with m stop have "consume_loop ev st3 stop =
            (case consume_loop ev1 st3 stop of Inl e \<Rightarrow> Inl e | Inr r \<Rightarrow> Inl e0)"
          by (rule less.hyps)
        then show ?thesis using eq co by simp
      qed
    qed
    show ?thesis
    proof (cases "i = nx")
      case eq: True
      then have "option_tuple_at ev1 i \<noteq> None" "option_tuple_at ev i \<noteq> None"
        using nx(2) ot [OF nxk] by simp_all
      then show ?thesis
        unfolding turn turn1 using eq opt [OF less.prems(2)] by simp
    next
      case ne: False
      then have lt: "i < nx" using nx(1) by simp
      have none1: "option_tuple_at ev1 i = None"
        using lt unfolding nx_def by (intro next_option_string_index_least [of i]) simp_all
      have none: "option_tuple_at ev i = None"
        using none1 ot [of i] lt nxk by simp
      have cpe: "consume_positionals ev st i = consume_positionals ev1 st i"
        using ext less.prems(1) unfolding k by (rule consume_positionals_append)
      from consume_positionals_plain [OF less.prems(2), of ev1 i] obtain st1 pend where
        cp: "consume_positionals ev1 st i = Inr (st1, pend)"
        and ps: "set (positionals st1) \<subseteq> {source_action, optional_destination_action}"
        by blast
      have nxlen: "nx < length (arg_strings_pattern ev1)" using nxk k by simp
      have pend: "i \<le> pend" "pend \<le> nx"
        using consume_positionals_index [OF cp]
          consume_positionals_before [OF cp nx(1) nxlen nxO] by simp_all
      show ?thesis
      proof (cases "i < pend")
        case True
        then have "k - pend < k - i" using pend nxk by simp
        moreover have "pend \<le> k" using pend nxk by simp
        ultimately have "consume_loop ev st1 pend =
            (case consume_loop ev1 st1 pend of Inl e \<Rightarrow> Inl e | Inr r \<Rightarrow> Inl e0)"
          using ps by (rule less.hyps)
        then show ?thesis unfolding turn turn1 using ne cpe cp True by simp
      next
        case f: False
        then have pi: "pend = i" using pend by simp
        have ex: "drop i (take nx (arg_strings ev)) = drop i (take nx (arg_strings ev1))"
          unfolding args using nxk k len by simp
        have ps2: "set (positionals (st1\<lparr>extras := extras st1 @
            drop i (take nx (arg_strings ev1))\<rparr>))
            \<subseteq> {source_action, optional_destination_action}"
          using ps by simp
        show ?thesis
          unfolding turn turn1 using ne cpe cp pi none none1 ex opt [OF ps2] by simp
      qed
    qed
  qed
qed


subsection \<open>What stops the parser inside the loop\<close>

text \<open>Inside the loop, and before it when the argument strings are classified, the
  parser never stops with one of the two errors that are raised after the loop.\<close>

lemma get_value_in_loop: "get_value a s = Inl e \<Longrightarrow> \<not> after_loop e"
  by (auto simp: get_value_def split: sum.splits if_splits)

lemma check_value_in_loop: "check_value a v = Inl e \<Longrightarrow> \<not> after_loop e"
  by (auto simp: check_value_def split: option.splits if_splits)

lemma get_value_list_in_loop: "get_value_list a ss = Inl e \<Longrightarrow> \<not> after_loop e"
proof (induction ss arbitrary: e)
  case Nil
  then show ?case by simp
next
  case (Cons s ss)
  show ?case
  proof (cases "get_value a s")
    case (Inl e')
    then have "e = e'" using Cons.prems by simp
    then show ?thesis using Inl get_value_in_loop by blast
  next
    case (Inr v)
    then have "get_value_list a ss = Inl e" using Cons.prems by (simp split: sum.splits)
    then show ?thesis by (rule Cons.IH)
  qed
qed

lemma check_value_list_in_loop: "check_value_list a vs = Inl e \<Longrightarrow> \<not> after_loop e"
proof (induction vs)
  case Nil
  then show ?case by simp
next
  case (Cons v vs)
  show ?case
  proof (cases "check_value a v")
    case (Inl e')
    then have "e = e'" using Cons.prems by simp
    then show ?thesis using Inl check_value_in_loop by blast
  next
    case (Inr u)
    then have "check_value_list a vs = Inl e" using Cons.prems by simp
    then show ?thesis by (rule Cons.IH)
  qed
qed

lemma get_values_in_loop:
  assumes "get_values a args = Inl e"
  shows "\<not> after_loop e"
proof -
  have one: "\<not> after_loop e"
    if "(case get_value a s of Inl e \<Rightarrow> Inl e
         | Inr v' \<Rightarrow> (case check_value a v' of Inl e \<Rightarrow> Inl e | Inr _ \<Rightarrow> Inr v')) = Inl e"
    for s
    using that get_value_in_loop [of a s e] check_value_in_loop [of a _ e]
    by (auto split: sum.splits)
  have many: "\<not> after_loop e"
    if "(case get_value_list a ss of Inl e \<Rightarrow> Inl e
         | Inr vs \<Rightarrow> (case check_value_list a vs of Inl e \<Rightarrow> Inl e | Inr _ \<Rightarrow> Inr (VList vs))) = Inl e"
    for ss
    using that get_value_list_in_loop [of a ss e] check_value_list_in_loop [of a _ e]
    by (auto split: sum.splits)
  have chk: "\<not> after_loop e"
    if "(case check_value a v of Inl e \<Rightarrow> Inl e | Inr _ \<Rightarrow> Inr v) = Inl e" for v
    using that check_value_in_loop [of a v e] by (auto split: sum.splits)
  from assms show ?thesis
    unfolding get_values_def Let_def
    by (auto split: if_splits pyvalue.splits dest: one many chk)
qed

lemma take_action_in_loop: "take_action st a args = Inl e \<Longrightarrow> \<not> after_loop e"
  using get_values_in_loop [of a args e]
  by (auto simp: take_action_def Let_def split: sum.splits action_class.splits)

lemma take_positionals_in_loop:
  "take_positionals args st i zs = Inl e \<Longrightarrow> \<not> after_loop e"
proof (induction zs arbitrary: st i)
  case Nil
  then show ?case by simp
next
  case (Cons z zs)
  obtain a n where z: "z = (a, n)" by (cases z)
  show ?case
  proof (cases "take_action st a (take n (drop i args))")
    case (Inl e')
    then have "e = e'" using Cons.prems z by simp
    then show ?thesis using Inl take_action_in_loop by blast
  next
    case (Inr st1)
    then have "take_positionals args st1 (i + n) zs = Inl e" using Cons.prems z by simp
    then show ?thesis by (rule Cons.IH)
  qed
qed

lemma consume_positionals_in_loop:
  "consume_positionals ev st i = Inl e \<Longrightarrow> \<not> after_loop e"
  using take_positionals_in_loop
  by (fastforce simp: consume_positionals_def Let_def split: sum.splits)

lemma match_argument_in_loop: "match_argument a p = Inl e \<Longrightarrow> \<not> after_loop e"
  by (auto simp: match_argument_def split: option.splits)

lemma explicit_loop_in_loop:
  "explicit_loop ev i acc a os sep ex = Inl e \<Longrightarrow> \<not> after_loop e"
proof (induction ev i acc a os sep ex rule: explicit_loop.induct)
  case (1 ev start_index acc a option_string sep)
  then show ?case using match_argument_in_loop by (auto split: sum.splits)
next
  case (2 ev start_index acc a option_string sep explicit_arg)
  show ?case
  proof (cases "match_argument a ''A''")
    case (Inl e')
    then have "e = e'" using "2.prems" by simp
    then show ?thesis using Inl match_argument_in_loop by blast
  next
    case (Inr arg_count)
    show ?thesis
    proof (cases option_string)
      case Nil
      then show ?thesis using "2.prems" Inr by auto
    next
      case (Cons c0 r)
      show ?thesis
      proof (cases r)
        case Nil
        then show ?thesis using "2.prems" Inr Cons by auto
      next
        case (Cons c1 r')
        note os = \<open>option_string = c0 # r\<close> Cons
        show ?thesis
        proof (cases "arg_count = 0 \<and> c1 \<noteq> CHR ''-'' \<and> explicit_arg \<noteq> []")
          case False
          then show ?thesis using "2.prems" Inr os by (auto split: if_splits)
        next
          case True
          show ?thesis
          proof (cases "(sep \<noteq> None \<and> sep \<noteq> Some []) \<or> hd explicit_arg = CHR ''-''")
            case t: True
            then show ?thesis using "2.prems" Inr os True by auto
          next
            case f: False
            show ?thesis
            proof (cases "map_of (option_string_actions (actions ev)) [c0, hd explicit_arg]")
              case None
              then show ?thesis using "2.prems" Inr os True f by auto
            next
              case (Some a')
              show ?thesis
                using "2.prems" "2.IH" [OF Inr os(1) os(2) True f refl Some refl]
                  Inr os True f Some
                by (auto simp: Let_def split: if_splits)
            qed
          qed
        qed
      qed
    qed
  qed
qed

lemma take_actions_in_loop: "take_actions st ts = Inl e \<Longrightarrow> \<not> after_loop e"
proof (induction ts arbitrary: st)
  case Nil
  then show ?case by simp
next
  case (Cons t ts)
  obtain a args os where t: "t = (a, args, os)" by (cases t)
  show ?case
  proof (cases "take_action st a args")
    case (Inl e')
    then have "e = e'" using Cons.prems t by simp
    then show ?thesis using Inl take_action_in_loop by blast
  next
    case (Inr st1)
    then have "take_actions st1 ts = Inl e" using Cons.prems t by simp
    then show ?thesis by (rule Cons.IH)
  qed
qed

lemma consume_optional_in_loop:
  assumes "consume_optional ev st i = Inl e"
  shows "\<not> after_loop e"
proof (cases "option_tuple_at ev i")
  case None
  then show ?thesis using assms by (auto simp: consume_optional_def)
next
  case (Some t)
  obtain ao os sep ex where t: "t = (ao, os, sep, ex)" by (cases t)
  show ?thesis
  proof (cases ao)
    case None
    then show ?thesis using assms Some t by (simp add: consume_optional_def)
  next
    case a: (Some a)
    show ?thesis
    proof (cases "explicit_loop ev i [] a os sep ex")
      case (Inl e')
      then have "e = e'" using assms Some t a by (simp add: consume_optional_def)
      then show ?thesis using Inl explicit_loop_in_loop by blast
    next
      case (Inr r)
      obtain ats xs stop where r: "r = (ats, xs, stop)" by (cases r)
      have "take_actions (st\<lparr>extras := extras st @ xs\<rparr>) ats = Inl e"
        using assms Some t a Inr r by (simp add: consume_optional_def split: sum.splits)
      then show ?thesis by (rule take_actions_in_loop)
    qed
  qed
qed

lemma consume_loop_in_loop:
  "consume_loop ev st i = Inl e \<Longrightarrow> \<not> after_loop e"
proof (induction "nat (max_option_string_index ev + 1 - int i)" arbitrary: i st rule: less_induct)
  case less
  show ?case
  proof (cases "int i \<le> max_option_string_index ev")
    case False
    then have "consume_loop ev st i = Inr (st, i)"
      by (subst consume_loop.simps) simp
    then show ?thesis using less.prems by simp
  next
    case True
    define nx where "nx = next_option_string_index ev i"
    note turn = consume_loop_turn [OF True, of st, folded nx_def]
    have inx: "i \<le> nx" unfolding nx_def by (rule next_option_string_index_ge)
    from max_option_string_index_witness [OF True] obtain j1 where
      j1: "i \<le> j1" "option_tuple_at ev j1 \<noteq> None" by blast
    have nxo: "option_tuple_at ev nx \<noteq> None"
      unfolding nx_def using next_option_string_index_le [OF j1(2,1)] by simp
    have opt: "\<not> after_loop e"
      if "(case consume_optional ev s oi of Inl e \<Rightarrow> Inl e
           | Inr (st3, stop) \<Rightarrow> consume_loop ev st3 stop) = Inl e" and "i \<le> oi" for s oi
    proof (cases "consume_optional ev s oi")
      case (Inl e')
      then have "e = e'" using that(1) by simp
      then show ?thesis using Inl consume_optional_in_loop by blast
    next
      case (Inr r)
      obtain st3 stop where r: "r = (st3, stop)" by (cases r)
      have co: "consume_optional ev s oi = Inr (st3, stop)" using Inr r by simp
      have "oi < stop" using co by (rule consume_optional_index)
      then have m: "nat (max_option_string_index ev + 1 - int stop)
          < nat (max_option_string_index ev + 1 - int i)"
        using that(2) True by simp
      have "consume_loop ev st3 stop = Inl e" using that(1) co by simp
      with m show ?thesis by (rule less.hyps)
    qed
    show ?thesis
    proof (cases "i = nx")
      case eq: True
      have io: "option_tuple_at ev i \<noteq> None" using nxo eq by simp
      have "option_tuple_at ev nx \<noteq> None \<Longrightarrow> i = nx \<Longrightarrow> consume_loop ev st i =
          (case consume_optional ev st i of
             Inl e \<Rightarrow> Inl e | Inr (st3, stop) \<Rightarrow> consume_loop ev st3 stop)"
        unfolding turn by simp
      from this [OF nxo eq] less.prems have "(case consume_optional ev st i of
          Inl e \<Rightarrow> Inl e | Inr (st3, stop) \<Rightarrow> consume_loop ev st3 stop) = Inl e"
        by simp
      then show ?thesis by (rule opt) simp
    next
      case ne: False
      show ?thesis
      proof (cases "consume_positionals ev st i")
        case (Inl e')
        then have "consume_loop ev st i = Inl e'" unfolding turn using ne by simp
        with less.prems have "e = e'" by simp
        then show ?thesis using Inl consume_positionals_in_loop by blast
      next
        case (Inr r)
        obtain st1 pend where r: "r = (st1, pend)" by (cases r)
        have cp: "consume_positionals ev st i = Inr (st1, pend)" using Inr r by simp
        have ip: "i \<le> pend" using cp by (rule consume_positionals_index)
        show ?thesis
        proof (cases "i < pend")
          case lt: True
          then have m: "nat (max_option_string_index ev + 1 - int pend)
              < nat (max_option_string_index ev + 1 - int i)"
            using True by simp
          have "consume_loop ev st i = consume_loop ev st1 pend"
            unfolding turn using ne cp lt by simp
          with less.prems have "consume_loop ev st1 pend = Inl e" by simp
          with m show ?thesis by (rule less.hyps)
        next
          case nlt: False
          then have pi: "pend = i" using ip by simp
          have "i < nx" using ne inx by simp
          then have none: "option_tuple_at ev i = None"
            unfolding nx_def by (intro next_option_string_index_least [of i]) simp_all
          have "consume_loop ev st i = (case consume_optional ev
                (st1\<lparr>extras := extras st1 @ drop i (take nx (arg_strings ev))\<rparr>) nx of
              Inl e \<Rightarrow> Inl e | Inr (st3, stop) \<Rightarrow> consume_loop ev st3 stop)"
            unfolding turn using ne cp pi none by simp
          with less.prems have "(case consume_optional ev
                (st1\<lparr>extras := extras st1 @ drop i (take nx (arg_strings ev))\<rparr>) nx of
              Inl e \<Rightarrow> Inl e | Inr (st3, stop) \<Rightarrow> consume_loop ev st3 stop) = Inl e"
            by simp
          then show ?thesis using inx by (rule opt)
        qed
      qed
    qed
  qed
qed

lemma parse_optional_in_loop: "parse_optional acts s = Inl e \<Longrightarrow> \<not> after_loop e"
  by (auto simp: parse_optional_def Let_def split: if_splits option.splits prod.splits)

lemma classify_in_loop: "classify acts args = Inl e \<Longrightarrow> \<not> after_loop e"
proof (induction args)
  case Nil
  then show ?case by simp
next
  case (Cons s args)
  show ?case
  proof (cases "s = ''--''")
    case True
    then show ?thesis using Cons.prems by simp
  next
    case False
    show ?thesis
    proof (cases "parse_optional acts s")
      case (Inl e')
      then have "e = e'" using Cons.prems False by simp
      then show ?thesis using Inl parse_optional_in_loop by blast
    next
      case (Inr t)
      then have "classify acts args = Inl e"
        using Cons.prems False by (simp split: sum.splits prod.splits)
      then show ?thesis by (rule Cons.IH)
    qed
  qed
qed

lemma classify_split:
  "''--'' \<notin> set pre \<Longrightarrow>
   classify acts (pre @ rest) =
     (case classify acts pre of
        Inl e \<Rightarrow> Inl e
      | Inr (p1, ts1) \<Rightarrow>
          (case classify acts rest of
             Inl e \<Rightarrow> Inl e
           | Inr (p2, ts2) \<Rightarrow> Inr (p1 @ p2, ts1 @ ts2)))"
proof (induction pre)
  case Nil
  then show ?case by (simp split: sum.splits)
next
  case (Cons s pre)
  have s: "s \<noteq> ''--''" "''--'' \<notin> set pre" using Cons.prems by auto
  show ?case
    using s(1) Cons.IH [OF s(2)]
    by (simp split: sum.splits prod.splits)
qed


lemma setup_parser_after_loop:
  assumes cl: "classify main_actions argv = Inr (p, ts)"
    and lp: "consume_loop \<lparr>actions = main_actions, arg_strings = argv,
        arg_strings_pattern = p, option_string_indices = ts\<rparr>
      \<lparr>ns = add_defaults main_actions nsp, seen_actions = {},
        positionals = [source_action, optional_destination_action], extras = []\<rparr> 0 = Inr (st1, i)"
  shows "case setup_parser nsp argv of Inl e \<Rightarrow> after_loop e | Inr r \<Rightarrow> True"
proof -
  define ev where "ev = \<lparr>actions = main_actions, arg_strings = argv,
        arg_strings_pattern = p, option_string_indices = ts\<rparr>"
  have "set (positionals st1) \<subseteq> set [source_action, optional_destination_action]"
    using consume_loop_param [OF lp] by (auto simp: param_def)
  then have "set (positionals st1) \<subseteq> {source_action, optional_destination_action}" by simp
  from consume_positionals_plain [OF this, of ev i] obtain st2 j where
    cp: "consume_positionals ev st1 i = Inr (st2, j)" by blast
  have pk: "parse_known_args main_actions nsp argv =
      (if (if source_action \<in> seen_actions st2 then [] else [''source'']) \<noteq> []
       then Inl (ExitError (RequiredArguments
              (if source_action \<in> seen_actions st2 then [] else [''source''])))
       else Inr (convert_size (seen_actions st2) (ns st2), extras st2 @ drop j argv))"
    using cl lp cp unfolding ev_def
    by (simp add: parse_known_args_def Let_def main_positionals finish_main_actions)
  show ?thesis
    unfolding setup_parser_def parse_args_def pk by simp
qed

text \<open>
  The parse of a command line with \<open>--required-files\<close> and no argument after it,
  compared with the parse of the strings before it alone: if that parse stops
  inside the loop (or when the strings are classified), the whole parse stops in
  the same way; in every other case it ends with the error of the missing argument.
\<close>

lemma required_files_after:
  assumes pre: "''--'' \<notin> set pre"
    and post: "post = [] \<or> hd post = ''--'' \<or> parse_optional main_actions (hd post) \<noteq> Inr None"
    and cl: "classify main_actions post = Inr (p', ts')"
  shows "setup_parser nsp (pre @ ''--required-files'' # post) =
     (case setup_parser nsp pre of
        Inl e \<Rightarrow>
          if after_loop e
          then Inl (ExitError (ArgumentError ''--required-files'' ExpectedAtLeastOneArgument))
          else Inl e
      | Inr r \<Rightarrow> Inl (ExitError (ArgumentError ''--required-files'' ExpectedAtLeastOneArgument)))"
proof (cases "classify main_actions pre")
  case (Inl e)
  have "setup_parser nsp pre = Inl e"
    using Inl by (simp add: setup_parser_def parse_args_def parse_known_args_def)
  moreover have "\<not> after_loop e" using Inl by (rule classify_in_loop)
  moreover have "classify main_actions (pre @ ''--required-files'' # post) = Inl e"
    unfolding classify_split [OF pre] Inl by simp
  then have "setup_parser nsp (pre @ ''--required-files'' # post) = Inl e"
    by (simp add: setup_parser_def parse_args_def parse_known_args_def)
  ultimately show ?thesis by simp
next
  case (Inr r)
  obtain p1 ts1 where r: "r = (p1, ts1)" by (cases r)
  have cl1: "classify main_actions pre = Inr (p1, ts1)" using Inr r by simp
  define k where "k = length pre"
  define e0 where "e0 = ExitError (ArgumentError ''--required-files'' ExpectedAtLeastOneArgument)"
  define p where "p = p1 @ CHR ''O'' # p'"
  define ts where "ts = ts1 @ Some (Some required_files_action, ''--required-files'', None, None) # ts'"
  define ev1 where "ev1 = \<lparr>actions = main_actions, arg_strings = pre,
    arg_strings_pattern = p1, option_string_indices = ts1\<rparr>"
  define ev where "ev = \<lparr>actions = main_actions,
    arg_strings = pre @ ''--required-files'' # post,
    arg_strings_pattern = p, option_string_indices = ts\<rparr>"
  define st0 where "st0 = \<lparr>ns = add_defaults main_actions nsp, seen_actions = {},
        positionals = [source_action, optional_destination_action], extras = []\<rparr>"
  have len1: "length p1 = k" "length ts1 = k"
    using classify_shape [OF cl1] by (simp_all add: k_def)
  have cl': "classify main_actions (pre @ ''--required-files'' # post) = Inr (p, ts)"
    unfolding classify_split [OF pre] cl1 classify_required cl
    by (simp add: p_def ts_def)
  have len: "length p = length ts"
    using classify_shape [OF cl'] by simp
  have ext: "extends ev1 ev"
    unfolding extends_def ev1_def ev_def p_def ts_def using len1 by (simp add: k_def)
  have k: "k = length (arg_strings_pattern ev1)" using len1 by (simp add: ev1_def)
  have tk: "option_tuple_at ev k =
      Some (Some required_files_action, ''--required-files'', None, None)"
    using len1 by (simp add: option_tuple_at_def ev_def ts_def nth_append)
  have dp': "drop (k + 1) (arg_strings_pattern ev) = p'"
    using len1 by (simp add: ev_def p_def)
  have fail: "match_argument required_files_action (drop (k + 1) (arg_strings_pattern ev)) = Inl e0"
    unfolding dp' e0_def using classify_no_argument [OF cl post] by (rule match_required_fails)
  have wf: "j < length (arg_strings_pattern ev) \<and> arg_strings_pattern ev ! j = CHR ''O''"
    if "option_tuple_at ev j \<noteq> None" for j
  proof -
    from that have j: "j < length ts" "ts ! j \<noteq> None"
      by (auto simp: option_tuple_at_def ev_def split: if_splits)
    then have "p ! j = CHR ''O''" by (rule classify_wf [OF cl'])
    then show ?thesis using j(1) len by (simp add: ev_def)
  qed
  have pos: "set (positionals st0) \<subseteq> {source_action, optional_destination_action}"
    by (simp add: st0_def)
  have sim: "consume_loop ev st0 0 =
      (case consume_loop ev1 st0 0 of Inl e \<Rightarrow> Inl e | Inr r \<Rightarrow> Inl e0)"
    using ext k tk fail wf le0 pos by (rule consume_loop_extends)
  show ?thesis
  proof (cases "consume_loop ev1 st0 0")
    case (Inl e)
    have "setup_parser nsp pre = Inl e"
      using Inl unfolding ev1_def st0_def by (rule setup_parser_loop_error [OF cl1])
    moreover have "\<not> after_loop e" using Inl by (rule consume_loop_in_loop)
    moreover have "consume_loop ev st0 0 = Inl e" using sim Inl by simp
    then have "setup_parser nsp (pre @ ''--required-files'' # post) = Inl e"
      unfolding ev_def st0_def by (rule setup_parser_loop_error [OF cl'])
    ultimately show ?thesis by simp
  next
    case (Inr r1)
    obtain st1 i where r1: "r1 = (st1, i)" by (cases r1)
    have lp: "consume_loop ev1 st0 0 = Inr (st1, i)" using Inr r1 by simp
    have a: "case setup_parser nsp pre of Inl e \<Rightarrow> after_loop e | Inr r \<Rightarrow> True"
      using lp unfolding ev1_def st0_def by (rule setup_parser_after_loop [OF cl1])
    have "consume_loop ev st0 0 = Inl e0" using sim lp by simp
    then have "setup_parser nsp (pre @ ''--required-files'' # post) = Inl e0"
      unfolding ev_def st0_def by (rule setup_parser_loop_error [OF cl'])
    then show ?thesis using a unfolding e0_def by (simp split: sum.splits)
  qed
qed


subsection \<open>The option on the command line\<close>

text \<open>
  The attribute can be set without the string \<open>--required-files\<close> on the command
  line, by an abbreviation or by the form with \<open>=\<close>; and the string can be on the
  command line with nothing after it and the parse still not end with the error of
  the missing argument: after \<open>-h\<close> the parser exits with the help, and after \<open>--\<close>
  the string is a positional argument.
\<close>

theorem required_files_counterexamples:
  "setup_parser FileProcessorNamespace [''src'', ''--req'', ''a''] =
     Inr [(''source'', VStr ''src''), (''optional_destination'', VStr ''default_value''),
          (''files'', VList []), (''required_files'', VList [VStr ''a'']),
          (''verbose'', VBool False), (''mode'', VStr ''auto''), (''size'', VInt 1048576)]
   \<and> setup_parser FileProcessorNamespace [''src'', ''--required-files=a''] =
     Inr [(''source'', VStr ''src''), (''optional_destination'', VStr ''default_value''),
          (''files'', VList []), (''required_files'', VList [VStr ''a'']),
          (''verbose'', VBool False), (''mode'', VStr ''auto''), (''size'', VInt 1048576)]
   \<and> setup_parser FileProcessorNamespace [''-h'', ''--required-files''] = Inl ExitHelp
   \<and> setup_parser FileProcessorNamespace [''src'', ''--'', ''--required-files''] =
     Inr [(''source'', VStr ''src''), (''optional_destination'', VStr ''--required-files''),
          (''files'', VList []), (''required_files'', VNone),
          (''verbose'', VBool False), (''mode'', VStr ''auto''), (''size'', VInt 1048576)]
   \<and> setup_parser FileProcessorNamespace [''src'', ''--mode'', ''--required-files''] =
     Inl (ExitError (ArgumentError ''-m/--mode'' ExpectedOneArgument))"
  by code_simp

text \<open>
  C4. The option \<open>--required-files\<close> takes one or more arguments and is not required.

  \<^item> A parse that succeeds on a command line none of whose strings is read as the
    option (the option string, an abbreviation of it, or either with \<open>=value\<close>; all
    of them begin with \<open>--r\<close>) leaves \<open>required_files\<close> at \<open>None\<close>.
  \<^item> A command line with the string \<open>--required-files\<close>, not after a \<open>--\<close>, followed
    by the end of the command line, by an option or by \<open>--\<close>, is never parsed with
    success.
  \<^item> If moreover the strings after it are classified without an ambiguous
    abbreviation, the parse ends with the error \<open>argument --required-files: expected
    at least one argument\<close>, with one exception: if the strings before it, parsed
    alone, stop the parser before the end of its loop (the help, an error of an
    earlier argument, an ambiguous abbreviation), the whole parse stops in that
    same way. The errors of a missing \<open>source\<close> and of unrecognized arguments, which
    are raised after the loop, do not come before it.
\<close>

theorem required_files_option:
  "(setup_parser FileProcessorNamespace argv = Inr ns1
      \<and> (\<forall>t\<in>set argv. \<not> names_required_files t)
     \<longrightarrow> map_of ns1 ''required_files'' = Some VNone)
   \<and> (names_required_files t \<longrightarrow> take 3 t = ''--r'')
   \<and> (''--'' \<notin> set pre
      \<and> (post = [] \<or> hd post = ''--'' \<or> parse_optional main_actions (hd post) \<noteq> Inr None)
     \<longrightarrow> (\<exists>e. setup_parser FileProcessorNamespace (pre @ ''--required-files'' # post) = Inl e))
   \<and> (''--'' \<notin> set pre
      \<and> (post = [] \<or> hd post = ''--'' \<or> parse_optional main_actions (hd post) \<noteq> Inr None)
      \<and> \<not> isl (classify main_actions post)
     \<longrightarrow> setup_parser FileProcessorNamespace (pre @ ''--required-files'' # post) =
          (case setup_parser FileProcessorNamespace pre of
             Inl e \<Rightarrow>
               if after_loop e
               then Inl (ExitError (ArgumentError ''--required-files'' ExpectedAtLeastOneArgument))
               else Inl e
           | Inr r \<Rightarrow>
               Inl (ExitError (ArgumentError ''--required-files'' ExpectedAtLeastOneArgument))))"
proof (intro conjI impI)
  assume h: "setup_parser FileProcessorNamespace argv = Inr ns1
      \<and> (\<forall>t\<in>set argv. \<not> names_required_files t)"
  have "parse_optional main_actions s \<noteq> Inr (Some (Some required_files_action, os, sep, ex))"
    if "s \<in> set argv" for s os sep ex
  proof
    assume "parse_optional main_actions s = Inr (Some (Some required_files_action, os, sep, ex))"
    then have "names_required_files s" by (simp add: names_required_files_def)
    then show False using h that by blast
  qed
  with h show "map_of ns1 ''required_files'' = Some VNone"
    by (intro required_files_absent [of argv ns1]) simp_all
next
  assume "names_required_files t"
  then obtain os sep ex where
    "parse_optional main_actions t = Inr (Some (Some required_files_action, os, sep, ex))"
    by (auto simp: names_required_files_def split: sum.splits option.splits)
  then show "take 3 t = ''--r''" by (rule required_files_token)
next
  assume "''--'' \<notin> set pre
      \<and> (post = [] \<or> hd post = ''--'' \<or> parse_optional main_actions (hd post) \<noteq> Inr None)"
  then show "\<exists>e. setup_parser FileProcessorNamespace (pre @ ''--required-files'' # post) = Inl e"
    by (intro required_files_blocked) simp_all
next
  assume h: "''--'' \<notin> set pre
      \<and> (post = [] \<or> hd post = ''--'' \<or> parse_optional main_actions (hd post) \<noteq> Inr None)
      \<and> \<not> isl (classify main_actions post)"
  then obtain p' ts' where cl: "classify main_actions post = Inr (p', ts')"
    by (cases "classify main_actions post") auto
  from h show "setup_parser FileProcessorNamespace (pre @ ''--required-files'' # post) =
      (case setup_parser FileProcessorNamespace pre of
         Inl e \<Rightarrow>
           if after_loop e
           then Inl (ExitError (ArgumentError ''--required-files'' ExpectedAtLeastOneArgument))
           else Inl e
       | Inr r \<Rightarrow>
           Inl (ExitError (ArgumentError ''--required-files'' ExpectedAtLeastOneArgument)))"
    by (intro required_files_after [OF _ _ cl]) simp_all
qed

theorem required_files_option_witness:
  "setup_parser FileProcessorNamespace [''src'', ''-v''] =
     Inr [(''source'', VStr ''src''), (''optional_destination'', VStr ''default_value''),
          (''files'', VList []), (''required_files'', VNone),
          (''verbose'', VBool True), (''mode'', VStr ''auto''), (''size'', VInt 1048576)]
   \<and> \<not> names_required_files ''src'' \<and> \<not> names_required_files ''-v''
   \<and> map_of [(''source'', VStr ''src''), (''optional_destination'', VStr ''default_value''),
          (''files'', VList []), (''required_files'', VNone),
          (''verbose'', VBool True), (''mode'', VStr ''auto''), (''size'', VInt 1048576)]
        ''required_files'' = Some VNone
   \<and> names_required_files ''--req=a'' \<and> take 3 ''--req=a'' = ''--r''
   \<and> \<not> isl (classify main_actions [])
   \<and> (\<exists>e. setup_parser FileProcessorNamespace [''src'', ''-v'', ''--required-files''] = Inl e)
   \<and> setup_parser FileProcessorNamespace [''src'', ''-v'', ''--required-files''] =
       Inl (ExitError (ArgumentError ''--required-files'' ExpectedAtLeastOneArgument))
   \<and> parse_optional main_actions ''-v'' \<noteq> Inr None
   \<and> \<not> isl (classify main_actions [''-v''])
   \<and> setup_parser FileProcessorNamespace [''src'', ''--mode'', ''bad''] =
       Inl (ExitError (ArgumentError ''-m/--mode''
              (InvalidChoice (VStr ''bad'') [VStr ''auto'', VStr ''manual''])))
   \<and> setup_parser FileProcessorNamespace
         [''src'', ''--mode'', ''bad'', ''--required-files'', ''-v''] =
       Inl (ExitError (ArgumentError ''-m/--mode''
              (InvalidChoice (VStr ''bad'') [VStr ''auto'', VStr ''manual''])))
   \<and> setup_parser FileProcessorNamespace [] = Inl (ExitError (RequiredArguments [''source'']))
   \<and> setup_parser FileProcessorNamespace [''--required-files''] =
       Inl (ExitError (ArgumentError ''--required-files'' ExpectedAtLeastOneArgument))"
proof -
  have e1: "setup_parser FileProcessorNamespace [''src'', ''-v''] =
     Inr [(''source'', VStr ''src''), (''optional_destination'', VStr ''default_value''),
          (''files'', VList []), (''required_files'', VNone),
          (''verbose'', VBool True), (''mode'', VStr ''auto''), (''size'', VInt 1048576)]"
    by code_simp
  have e2: "\<not> names_required_files ''src''" "\<not> names_required_files ''-v''"
    "names_required_files ''--req=a''"
    by code_simp+
  have e3: "parse_optional main_actions ''-v'' \<noteq> Inr None"
    "\<not> isl (classify main_actions [''-v''])" "\<not> isl (classify main_actions [])"
    by code_simp+
  have e4: "setup_parser FileProcessorNamespace [''src'', ''--mode'', ''bad''] =
       Inl (ExitError (ArgumentError ''-m/--mode''
              (InvalidChoice (VStr ''bad'') [VStr ''auto'', VStr ''manual''])))"
    "setup_parser FileProcessorNamespace [] = Inl (ExitError (RequiredArguments [''source'']))"
    by code_simp+
  have a: "map_of [(''source'', VStr ''src''), (''optional_destination'', VStr ''default_value''),
          (''files'', VList []), (''required_files'', VNone),
          (''verbose'', VBool True), (''mode'', VStr ''auto''), (''size'', VInt 1048576)]
        ''required_files'' = Some VNone \<and> take 3 ''--req=a'' = ''--r''
      \<and> (\<exists>e. setup_parser FileProcessorNamespace [''src'', ''-v'', ''--required-files''] = Inl e)
      \<and> setup_parser FileProcessorNamespace [''src'', ''-v'', ''--required-files''] =
       Inl (ExitError (ArgumentError ''--required-files'' ExpectedAtLeastOneArgument))"
    using required_files_option [of "[''src'', ''-v'']"
        "[(''source'', VStr ''src''), (''optional_destination'', VStr ''default_value''),
          (''files'', VList []), (''required_files'', VNone),
          (''verbose'', VBool True), (''mode'', VStr ''auto''), (''size'', VInt 1048576)]"
        "''--req=a''" "[''src'', ''-v'']" "[]"] e1 e2 e3
    by simp
  have b: "setup_parser FileProcessorNamespace
         [''src'', ''--mode'', ''bad'', ''--required-files'', ''-v''] =
       Inl (ExitError (ArgumentError ''-m/--mode''
              (InvalidChoice (VStr ''bad'') [VStr ''auto'', VStr ''manual''])))"
    using required_files_option [of "[]" "[]" "[]" "[''src'', ''--mode'', ''bad'']" "[''-v'']"]
      e3 e4(1)
    by simp
  have c: "setup_parser FileProcessorNamespace [''--required-files''] =
       Inl (ExitError (ArgumentError ''--required-files'' ExpectedAtLeastOneArgument))"
    using required_files_option [of "[]" "[]" "[]" "[]" "[]"] e3 e4(2)
    by simp
  show ?thesis using a b c e1 e2 e3 e4 by simp
qed

section \<open>validators.py: the converters and the parser\<close>

lemma converters_accept:
  "(file_conv fs p = Inr v \<longleftrightarrow> fs p = Some RegularFile \<and> v = Path p)
   \<and> (directory fs p = Inr v \<longleftrightarrow> fs p = Some Directory \<and> v = Path p)"
  by (auto simp: file_conv_def directory_def path_exists_def path_isfile_def path_isdir_def)

lemma directory_cases:
  "directory fs p =
     (case fs p of
        None \<Rightarrow> Inl (ValueError (''Expected directory, doesn'' @ [CHR 0x27] @ ''t exist: '' @ quoted p))
      | Some k \<Rightarrow>
          if k = Directory then Inr (Path p)
          else Inl (ValueError (''Expected directory, received non-directory: '' @ quoted p)))"
  by (simp add: directory_def path_exists_def path_isdir_def split: option.splits)

lemma file_conv_cases:
  "file_conv fs p =
     (case fs p of
        None \<Rightarrow> Inl (ValueError (''Expected file, doesn'' @ [CHR 0x27] @ ''t exist: '' @ quoted p))
      | Some k \<Rightarrow>
          if k = RegularFile then Inr (Path p)
          else Inl (ValueError (''Expected file, received non-file: '' @ quoted p)))"
  by (simp add: file_conv_def path_exists_def path_isfile_def split: option.splits)

text \<open>What the parser makes of a converter: the path as value, or its own error
  \<open>invalid directory value\<close> or \<open>invalid file value\<close> with the argument string. The
  message of the \<open>ValueError\<close> is not part of it.\<close>

lemma get_value_directory:
  "get_value (source_directory_action fsl) d =
     (case map_of fsl d of
        Some Directory \<Rightarrow> Inr (VPath (Path d))
      | _ \<Rightarrow> Inl (ExitError (ArgumentError ''source_directory'' (InvalidValue ''directory'' d))))"
  by (simp add: get_value_def call_type_def directory_cases source_directory_action_def
      positional_def get_action_name_def type_name_def split: option.splits node.splits)

lemma get_value_file:
  "get_value (files_positional_action fsl) f =
     (case map_of fsl f of
        Some RegularFile \<Rightarrow> Inr (VPath (Path f))
      | _ \<Rightarrow> Inl (ExitError (ArgumentError ''files'' (InvalidValue ''file'' f))))"
  by (simp add: get_value_def call_type_def file_conv_cases files_positional_action_def
      positional_def get_action_name_def type_name_def split: option.splits node.splits)

lemma get_values_directory:
  assumes "d \<noteq> ''--''"
  shows "get_values (source_directory_action fsl) [d] =
     (case map_of fsl d of
        Some Directory \<Rightarrow> Inr (VPath (Path d))
      | _ \<Rightarrow> Inl (ExitError (ArgumentError ''source_directory'' (InvalidValue ''directory'' d))))"
proof -
  define a where "a = source_directory_action fsl"
  have fields: "option_strings a = []" "nargs a = NargsNone" "choices a = None"
    by (simp_all add: a_def source_directory_action_def positional_def)
  have gv: "get_value a d =
     (case map_of fsl d of
        Some Directory \<Rightarrow> Inr (VPath (Path d))
      | _ \<Rightarrow> Inl (ExitError (ArgumentError ''source_directory'' (InvalidValue ''directory'' d))))"
    unfolding a_def by (rule get_value_directory)
  show ?thesis
    unfolding a_def [symmetric] get_values_def
    using assms by (simp add: fields gv check_value_def split: option.splits node.splits)
qed

lemma get_values_file:
  assumes "f \<noteq> ''--''"
  shows "get_values (files_positional_action fsl) [f] =
     (case map_of fsl f of
        Some RegularFile \<Rightarrow> Inr (VList [VPath (Path f)])
      | _ \<Rightarrow> Inl (ExitError (ArgumentError ''files'' (InvalidValue ''file'' f))))"
proof -
  define a where "a = files_positional_action fsl"
  have fields: "option_strings a = []" "nargs a = NargsOneOrMore" "choices a = None"
    by (simp_all add: a_def files_positional_action_def positional_def)
  have gv: "get_value a f =
     (case map_of fsl f of
        Some RegularFile \<Rightarrow> Inr (VPath (Path f))
      | _ \<Rightarrow> Inl (ExitError (ArgumentError ''files'' (InvalidValue ''file'' f))))"
    unfolding a_def by (rule get_value_file)
  show ?thesis
    unfolding a_def [symmetric] get_values_def
    using assms by (simp add: fields gv check_value_def split: option.splits node.splits)
qed

lemma match_two:
  "match_arguments_partial [source_directory_action fsl, files_positional_action fsl] ''AA'' = [1, 1]"
  by (simp add: match_arguments_partial_def get_nargs_pattern_def source_directory_action_def
      files_positional_action_def positional_def)

lemma validators_positionals:
  "filter (\<lambda>a. option_strings a = []) (validators_actions fsl) =
     [source_directory_action fsl, files_positional_action fsl]"
  by (simp add: validators_actions_def source_directory_action_def files_positional_action_def
      positional_def help_action_def)

lemma validators_parse:
  assumes d: "parse_optional (validators_actions fsl) d = Inr None" "d \<noteq> ''--''"
    and f: "parse_optional (validators_actions fsl) f = Inr None" "f \<noteq> ''--''"
  shows "validators_setup_parser fsl [d, f] =
     (if map_of fsl d \<noteq> Some Directory then
        Inl (ExitError (ArgumentError ''source_directory'' (InvalidValue ''directory'' d)))
      else if map_of fsl f \<noteq> Some RegularFile then
        Inl (ExitError (ArgumentError ''files'' (InvalidValue ''file'' f)))
      else Inr [(''source_directory'', VPath (Path d)), (''files'', VList [VPath (Path f)])])"
proof -
  define ev where "ev = \<lparr>actions = validators_actions fsl, arg_strings = [d, f],
    arg_strings_pattern = ''AA'', option_string_indices = [None, None]\<rparr>"
  define st0 where "st0 = \<lparr>ns = add_defaults (validators_actions fsl) [], seen_actions = {},
    positionals = [source_directory_action fsl, files_positional_action fsl], extras = []\<rparr>"
  have c: "classify (validators_actions fsl) [d, f] = Inr (''AA'', [None, None])"
    using d f by (simp add: classify_argument)
  have mx: "max_option_string_index ev = - 1"
    by (simp add: ev_def max_option_string_index_def option_indices_def option_tuple_at_def)
  have loop: "consume_loop ev st0 0 = Inr (st0, 0)"
    by (subst consume_loop.simps) (simp add: mx)
  have dflt: "add_defaults (validators_actions fsl) [] = [(''source_directory'', VNone), (''files'', VNone)]"
    by (simp add: add_defaults_def validators_actions_def source_directory_action_def
        files_positional_action_def positional_def help_action_def hasattr_def SUPPRESS_def)
  have ac: "action_class (source_directory_action fsl) = StoreAction"
    "action_class (files_positional_action fsl) = StoreAction"
    "dest (source_directory_action fsl) = ''source_directory''"
    "dest (files_positional_action fsl) = ''files''"
    "required (source_directory_action fsl)" "required (files_positional_action fsl)"
    "default_value (source_directory_action fsl) = VNone"
    "default_value (files_positional_action fsl) = VNone"
    by (simp_all add: source_directory_action_def files_positional_action_def positional_def)
  have ne: "source_directory_action fsl \<noteq> files_positional_action fsl"
    "help_action \<noteq> source_directory_action fsl" "help_action \<noteq> files_positional_action fsl"
    by (simp_all add: source_directory_action_def files_positional_action_def positional_def
        help_action_def)
  show ?thesis
  proof (cases "map_of fsl d = Some Directory")
    case False
    then have gd: "get_values (source_directory_action fsl) [d] =
        Inl (ExitError (ArgumentError ''source_directory'' (InvalidValue ''directory'' d)))"
      using get_values_directory [OF d(2), of fsl] by (auto split: option.splits node.splits)
    have pos: "consume_positionals ev st0 0 =
        Inl (ExitError (ArgumentError ''source_directory'' (InvalidValue ''directory'' d)))"
      by (simp add: consume_positionals_def ev_def st0_def match_two take_action_def gd)
    show ?thesis
      unfolding validators_setup_parser_def parse_args_def parse_known_args_def c
        validators_positionals
      using loop pos False
      by (simp add: Let_def ev_def st0_def del: classify.simps)
  next
    case True
    then have gd: "get_values (source_directory_action fsl) [d] = Inr (VPath (Path d))"
      using get_values_directory [OF d(2), of fsl] by simp
    show ?thesis
    proof (cases "map_of fsl f = Some RegularFile")
      case f1: False
      then have gf: "get_values (files_positional_action fsl) [f] =
          Inl (ExitError (ArgumentError ''files'' (InvalidValue ''file'' f)))"
        using get_values_file [OF f(2), of fsl] by (auto split: option.splits node.splits)
      have pos: "consume_positionals ev st0 0 =
          Inl (ExitError (ArgumentError ''files'' (InvalidValue ''file'' f)))"
        by (simp add: consume_positionals_def ev_def st0_def match_two take_action_def gd gf ac)
      show ?thesis
        unfolding validators_setup_parser_def parse_args_def parse_known_args_def c
          validators_positionals
        using loop pos True f1
        by (simp add: Let_def ev_def st0_def del: classify.simps)
    next
      case f2: True
      then have gf: "get_values (files_positional_action fsl) [f] = Inr (VList [VPath (Path f)])"
        using get_values_file [OF f(2), of fsl] by simp
      define st2 where "st2 = \<lparr>ns = [(''source_directory'', VPath (Path d)),
          (''files'', VList [VPath (Path f)])],
        seen_actions = {files_positional_action fsl, source_directory_action fsl},
        positionals = [], extras = []\<rparr>"
      have pos: "consume_positionals ev st0 0 = Inr (st2, 2)"
        by (simp add: consume_positionals_def ev_def st0_def match_two take_action_def gd gf ac
            dflt st2_def)
      have fin: "finish_actions {files_positional_action fsl, source_directory_action fsl}
          (validators_actions fsl)
          [(''source_directory'', VPath (Path d)), (''files'', VList [VPath (Path f)])] [] =
        Inr ([(''source_directory'', VPath (Path d)), (''files'', VList [VPath (Path f)])], [])"
        using ne by (simp add: validators_actions_def help_action_def [of] ac)
          (simp add: help_action_def hasattr_def getattr_def)
      show ?thesis
        unfolding validators_setup_parser_def parse_args_def parse_known_args_def c
          validators_positionals
        using loop pos fin True f2
        by (simp add: Let_def ev_def st0_def st2_def del: classify.simps)
    qed
  qed
qed

text \<open>
  C6. The converters of validators.py.

  \<^item> On a path that does not exist, \<open>directory\<close> raises \<open>ValueError\<close> with the message
    \<open>Expected directory, doesn't exist: 'path'\<close>, and \<open>file\<close> with \<open>Expected file,
    doesn't exist: 'path'\<close>; both messages end with the path in quotes.
  \<^item> On a path that exists and is not a regular file, so on every directory, \<open>file\<close>
    raises \<open>ValueError\<close> with \<open>Expected file, received non-file: 'path'\<close>; on a path
    that exists and is not a directory, \<open>directory\<close> raises it with \<open>Expected directory,
    received non-directory: 'path'\<close>.
  \<^item> The two failures are told apart by what the converter raises: the exception for
    a missing path and the exception for a path of the wrong kind differ, whatever
    the two paths are.
  \<^item> A converter returns a value only for a path of the kind it expects.
  \<^item> In the parser, with the path as \<open>source_directory\<close> or as one of the \<open>files\<close>, the
    failure of the converter ends the parse with the parser's error \<open>argument
    source_directory: invalid directory value: 'path'\<close> or \<open>argument files: invalid file
    value: 'path'\<close>. This error names the path; the message of the \<open>ValueError\<close> is not
    printed, as the comments of the script show.
\<close>

theorem validators_reject:
  "(fs p = None \<longrightarrow>
      directory fs p =
        Inl (ValueError (''Expected directory, doesn'' @ [CHR 0x27] @ ''t exist: '' @ quoted p))
      \<and> file_conv fs p =
        Inl (ValueError (''Expected file, doesn'' @ [CHR 0x27] @ ''t exist: '' @ quoted p)))
   \<and> (fs p = Some k \<and> k \<noteq> RegularFile \<longrightarrow>
      file_conv fs p = Inl (ValueError (''Expected file, received non-file: '' @ quoted p)))
   \<and> (fs p = Some k \<and> k \<noteq> Directory \<longrightarrow>
      directory fs p =
        Inl (ValueError (''Expected directory, received non-directory: '' @ quoted p)))
   \<and> (fs p = None \<and> fs' q = Some k \<and> k \<noteq> RegularFile \<longrightarrow> file_conv fs p \<noteq> file_conv fs' q)
   \<and> (fs p = None \<and> fs' q = Some k \<and> k \<noteq> Directory \<longrightarrow> directory fs p \<noteq> directory fs' q)
   \<and> ((\<exists>v. file_conv fs p = Inr v) \<longleftrightarrow> fs p = Some RegularFile)
   \<and> ((\<exists>v. directory fs p = Inr v) \<longleftrightarrow> fs p = Some Directory)
   \<and> (parse_optional (validators_actions fsl) d = Inr None \<and> d \<noteq> ''--''
      \<and> parse_optional (validators_actions fsl) f = Inr None \<and> f \<noteq> ''--''
     \<longrightarrow> validators_setup_parser fsl [d, f] =
          (if map_of fsl d \<noteq> Some Directory then
             Inl (ExitError (ArgumentError ''source_directory'' (InvalidValue ''directory'' d)))
           else if map_of fsl f \<noteq> Some RegularFile then
             Inl (ExitError (ArgumentError ''files'' (InvalidValue ''file'' f)))
           else Inr [(''source_directory'', VPath (Path d)), (''files'', VList [VPath (Path f)])]))"
proof (intro conjI impI)
  assume "fs p = None"
  then show "directory fs p =
      Inl (ValueError (''Expected directory, doesn'' @ [CHR 0x27] @ ''t exist: '' @ quoted p))"
    by (simp add: directory_cases)
next
  assume "fs p = None"
  then show "file_conv fs p =
      Inl (ValueError (''Expected file, doesn'' @ [CHR 0x27] @ ''t exist: '' @ quoted p))"
    by (simp add: file_conv_cases)
next
  assume "fs p = Some k \<and> k \<noteq> RegularFile"
  then show "file_conv fs p = Inl (ValueError (''Expected file, received non-file: '' @ quoted p))"
    by (simp add: file_conv_cases)
next
  assume "fs p = Some k \<and> k \<noteq> Directory"
  then show "directory fs p =
      Inl (ValueError (''Expected directory, received non-directory: '' @ quoted p))"
    by (simp add: directory_cases)
next
  assume "fs p = None \<and> fs' q = Some k \<and> k \<noteq> RegularFile"
  then show "file_conv fs p \<noteq> file_conv fs' q"
    by (simp add: file_conv_cases)
next
  assume "fs p = None \<and> fs' q = Some k \<and> k \<noteq> Directory"
  then show "directory fs p \<noteq> directory fs' q"
    by (simp add: directory_cases)
next
  show "(\<exists>v. file_conv fs p = Inr v) \<longleftrightarrow> fs p = Some RegularFile"
    by (simp add: file_conv_cases split: option.splits)
next
  show "(\<exists>v. directory fs p = Inr v) \<longleftrightarrow> fs p = Some Directory"
    by (simp add: directory_cases split: option.splits)
next
  assume "parse_optional (validators_actions fsl) d = Inr None \<and> d \<noteq> ''--''
      \<and> parse_optional (validators_actions fsl) f = Inr None \<and> f \<noteq> ''--''"
  then show "validators_setup_parser fsl [d, f] =
      (if map_of fsl d \<noteq> Some Directory then
         Inl (ExitError (ArgumentError ''source_directory'' (InvalidValue ''directory'' d)))
       else if map_of fsl f \<noteq> Some RegularFile then
         Inl (ExitError (ArgumentError ''files'' (InvalidValue ''file'' f)))
       else Inr [(''source_directory'', VPath (Path d)), (''files'', VList [VPath (Path f)])])"
    by (intro validators_parse) simp_all
qed

theorem validators_reject_witness:
  "fs_example ''nonexistent'' = None \<and> fs_example ''docs'' = Some Directory
   \<and> fs_example ''main.py'' = Some RegularFile
   \<and> directory fs_example ''nonexistent'' =
     Inl (ValueError (''Expected directory, doesn'' @ [CHR 0x27] @ ''t exist: ''
                      @ [CHR 0x27] @ ''nonexistent'' @ [CHR 0x27]))
   \<and> file_conv fs_example ''nonexistent'' =
     Inl (ValueError (''Expected file, doesn'' @ [CHR 0x27] @ ''t exist: ''
                      @ [CHR 0x27] @ ''nonexistent'' @ [CHR 0x27]))
   \<and> file_conv fs_example ''docs'' =
     Inl (ValueError (''Expected file, received non-file: '' @ [CHR 0x27] @ ''docs'' @ [CHR 0x27]))
   \<and> directory fs_example ''main.py'' =
     Inl (ValueError (''Expected directory, received non-directory: ''
                      @ [CHR 0x27] @ ''main.py'' @ [CHR 0x27]))
   \<and> file_conv fs_example ''nonexistent'' \<noteq> file_conv fs_example ''docs''
   \<and> directory fs_example ''nonexistent'' \<noteq> directory fs_example ''main.py''
   \<and> validators_setup_parser [(''docs'', Directory), (''main.py'', RegularFile)]
        [''nonexistent'', ''main.py''] =
     Inl (ExitError (ArgumentError ''source_directory'' (InvalidValue ''directory'' ''nonexistent'')))
   \<and> validators_setup_parser [(''docs'', Directory), (''main.py'', RegularFile)]
        [''docs'', ''docs''] =
     Inl (ExitError (ArgumentError ''files'' (InvalidValue ''file'' ''docs'')))
   \<and> validators_setup_parser [(''docs'', Directory), (''main.py'', RegularFile)]
        [''docs'', ''main.py''] =
     Inr [(''source_directory'', VPath (Path ''docs'')),
          (''files'', VList [VPath (Path ''main.py'')])]"
proof -
  define fsl where "fsl = [(''docs'', Directory), (''main.py'', RegularFile)]"
  have a: "fs_example ''nonexistent'' = None" "fs_example ''docs'' = Some Directory"
    "fs_example ''main.py'' = Some RegularFile"
    by (simp_all add: fs_example_def)
  have po: "parse_optional (validators_actions fsl) ''nonexistent'' = Inr None"
    "parse_optional (validators_actions fsl) ''docs'' = Inr None"
    "parse_optional (validators_actions fsl) ''main.py'' = Inr None"
    by (simp_all add: parse_optional_def)
  have m: "map_of fsl ''nonexistent'' = None" "map_of fsl ''docs'' = Some Directory"
    "map_of fsl ''main.py'' = Some RegularFile"
    by (simp_all add: fsl_def)
  note t1 = validators_reject [of fs_example "''nonexistent''" Directory fs_example "''docs''"
        fsl "''nonexistent''" "''main.py''"]
  note t2 = validators_reject [of fs_example "''docs''" Directory fs_example "''docs''"
        fsl "''docs''" "''docs''"]
  note t3 = validators_reject [of fs_example "''main.py''" RegularFile fs_example "''main.py''"
        fsl "''docs''" "''main.py''"]
  note t4 = validators_reject [of fs_example "''nonexistent''" RegularFile fs_example "''main.py''"
        fsl "''docs''" "''main.py''"]
  have c1: "directory fs_example ''nonexistent'' =
      Inl (ValueError (''Expected directory, doesn'' @ [CHR 0x27] @ ''t exist: ''
                      @ quoted ''nonexistent''))"
    "file_conv fs_example ''nonexistent'' =
      Inl (ValueError (''Expected file, doesn'' @ [CHR 0x27] @ ''t exist: ''
                      @ quoted ''nonexistent''))"
    using t1 a(1) by blast+
  have c2: "file_conv fs_example ''nonexistent'' \<noteq> file_conv fs_example ''docs''"
    using t1 a(1,2) by blast
  have c3: "validators_setup_parser fsl [''nonexistent'', ''main.py''] =
      Inl (ExitError (ArgumentError ''source_directory''
             (InvalidValue ''directory'' ''nonexistent'')))"
  proof -
    have "validators_setup_parser fsl [''nonexistent'', ''main.py''] =
          (if map_of fsl ''nonexistent'' \<noteq> Some Directory then
             Inl (ExitError (ArgumentError ''source_directory''
                    (InvalidValue ''directory'' ''nonexistent'')))
           else if map_of fsl ''main.py'' \<noteq> Some RegularFile then
             Inl (ExitError (ArgumentError ''files'' (InvalidValue ''file'' ''main.py'')))
           else Inr [(''source_directory'', VPath (Path ''nonexistent'')),
                     (''files'', VList [VPath (Path ''main.py'')])])"
      using t1 po by simp
    then show ?thesis by (simp add: m)
  qed
  have c4: "file_conv fs_example ''docs'' =
      Inl (ValueError (''Expected file, received non-file: '' @ quoted ''docs''))"
    using t2 a(2) by blast
  have c5: "validators_setup_parser fsl [''docs'', ''docs''] =
      Inl (ExitError (ArgumentError ''files'' (InvalidValue ''file'' ''docs'')))"
  proof -
    have "validators_setup_parser fsl [''docs'', ''docs''] =
          (if map_of fsl ''docs'' \<noteq> Some Directory then
             Inl (ExitError (ArgumentError ''source_directory''
                    (InvalidValue ''directory'' ''docs'')))
           else if map_of fsl ''docs'' \<noteq> Some RegularFile then
             Inl (ExitError (ArgumentError ''files'' (InvalidValue ''file'' ''docs'')))
           else Inr [(''source_directory'', VPath (Path ''docs'')),
                     (''files'', VList [VPath (Path ''docs'')])])"
      using t2 po by simp
    then show ?thesis by (simp add: m)
  qed
  have c6: "directory fs_example ''main.py'' =
      Inl (ValueError (''Expected directory, received non-directory: '' @ quoted ''main.py''))"
    using t3 a(3) by blast
  have c7: "validators_setup_parser fsl [''docs'', ''main.py''] =
      Inr [(''source_directory'', VPath (Path ''docs'')),
           (''files'', VList [VPath (Path ''main.py'')])]"
  proof -
    have "validators_setup_parser fsl [''docs'', ''main.py''] =
          (if map_of fsl ''docs'' \<noteq> Some Directory then
             Inl (ExitError (ArgumentError ''source_directory''
                    (InvalidValue ''directory'' ''docs'')))
           else if map_of fsl ''main.py'' \<noteq> Some RegularFile then
             Inl (ExitError (ArgumentError ''files'' (InvalidValue ''file'' ''main.py'')))
           else Inr [(''source_directory'', VPath (Path ''docs'')),
                     (''files'', VList [VPath (Path ''main.py'')])])"
      using t3 po by simp
    then show ?thesis by (simp add: m)
  qed
  have c8: "directory fs_example ''nonexistent'' \<noteq> directory fs_example ''main.py''"
    using t4 a(1,3) by blast
  show ?thesis
    using a c1 c2 c3 c4 c5 c6 c7 c8 unfolding fsl_def quoted_def by blast
qed

end
